theory Spec2Isabelle
  imports Complex_Main
begin

section \<open>Data model\<close>

text \<open>
  The interfaces of \<^verbatim>\<open>App.tsx\<close> and \<^verbatim>\<open>SmartMap.tsx\<close>. A JavaScript \<^verbatim>\<open>number\<close> that
  the code computes page arithmetic with (\<^verbatim>\<open>page\<close>, \<^verbatim>\<open>total_pages\<close>) is an \<open>int\<close>,
  a size or a count is a \<open>nat\<close>, and a coordinate is the exact rational value of the
  double. A \<^verbatim>\<open>Record<string, string>\<close> keeps its insertion order, so the tags are an
  association list.
\<close>

record Category =
  key :: string
  label :: string

record Place =
  id_place :: int
  name :: string
  lat :: rat
  lon :: rat
  address :: string
  tags :: "(string \<times> string) list"

record PaginationInfo =
  page :: int
  limit :: nat
  total_pages :: int
  has_next :: bool
  has_prev :: bool

record SearchResult =
  town :: string
  category :: string
  places :: "Place list"
  count :: nat
  total_count :: nat
  pagination :: PaginationInfo

section \<open>The numbered page buttons of \<^verbatim>\<open>App.tsx\<close>\<close>

text \<open>
  The callback of \<^verbatim>\<open>Array.from({ length: Math.min(5, total_pages) }, (_, i) => ...)\<close>:
  the page number shown on the button with index \<open>i\<close>.
\<close>

definition pageNum :: "int \<Rightarrow> int \<Rightarrow> int \<Rightarrow> int" where
  "pageNum tp currentPage i =
     (if tp \<le> 5 then i + 1
      else if currentPage \<le> 3 then i + 1
      else if currentPage \<ge> tp - 2 then tp - 4 + i
      else currentPage - 2 + i)"

definition page_buttons :: "int \<Rightarrow> int \<Rightarrow> int list" where
  "page_buttons tp currentPage =
     map (\<lambda>i. pageNum tp currentPage (int i)) [0..<nat (min 5 tp)]"

text \<open>
  The block \<^verbatim>\<open>{results.pagination.total_pages > 1 && (...)}\<close>, itself inside
  \<^verbatim>\<open>{results && (...)}\<close>: \<open>None\<close> when the controls are not rendered, otherwise the
  numbers on the page buttons, in order.
\<close>

definition pagination_controls :: "SearchResult option \<Rightarrow> int \<Rightarrow> int list option" where
  "pagination_controls results currentPage =
     (case results of
        None \<Rightarrow> None
      | Some r \<Rightarrow>
          if total_pages (pagination r) > 1
          then Some (page_buttons (total_pages (pagination r)) currentPage)
          else None)"

section \<open>The address line of a place card (\<^verbatim>\<open>App.tsx\<close>, \<^verbatim>\<open>SmartMap.tsx\<close>)\<close>

text \<open>
  \<^verbatim>\<open>Number.prototype.toFixed\<close> of the JavaScript library, by the steps of its
  specification, on the exact value of a finite number: the sign, then the integer \<open>n\<close>
  nearest to \<open>x * 10^f\<close> (the larger one of two), written in decimal digits, padded with
  zeroes to at least \<open>f + 1\<close> digits, with the point before the last \<open>f\<close> digits. From
  \<open>10^21\<close> on the library switches to its general number-to-string conversion, which
  stays a parameter.
\<close>

definition digit_char :: "nat \<Rightarrow> char" where
  "digit_char d = ''0123456789'' ! d"

fun digits :: "nat \<Rightarrow> string" where
  "digits n = (if n < 10 then [digit_char n] else digits (n div 10) @ [digit_char (n mod 10)])"

definition toFixed :: "(rat \<Rightarrow> string) \<Rightarrow> nat \<Rightarrow> rat \<Rightarrow> string" where
  "toFixed ToString f x0 =
     (let s = (if x0 < 0 then ''-'' else []);
          x = \<bar>x0\<bar>
      in if x \<ge> 10 ^ 21 then s @ ToString x
         else
           let n = nat \<lfloor>x * 10 ^ f + 1 / 2\<rfloor>;
               m = digits n
           in if f \<noteq> 0 then
                let k = length m;
                    z = (if k \<le> f then replicate (f + 1 - k) (CHR ''0'') else []);
                    m = z @ m;
                    k = (if k \<le> f then f + 1 else k)
                in s @ take (k - f) m @ ''.'' @ drop (k - f) m
              else s @ m)"

text \<open>
  \<^verbatim>\<open>formatAddress\<close>, the same function in both components. A string is truthy exactly
  when it is not empty.
\<close>

definition formatAddress :: "(rat \<Rightarrow> string) \<Rightarrow> Place \<Rightarrow> string" where
  "formatAddress ToString place =
     (if address place \<noteq> [] then address place
      else toFixed ToString 4 (lat place) @ '', '' @ toFixed ToString 4 (lon place))"

text \<open>Reading a string of decimal digits back, to say what \<open>toFixed\<close> prints.\<close>

definition is_digit :: "char \<Rightarrow> bool" where
  "is_digit c = (c \<in> set ''0123456789'')"

definition digit_value :: "char \<Rightarrow> nat" where
  "digit_value c = length (takeWhile (\<lambda>d. d \<noteq> c) ''0123456789'')"

definition decimal_value :: "string \<Rightarrow> nat" where
  "decimal_value ds = foldl (\<lambda>acc c. 10 * acc + digit_value c) 0 ds"

section \<open>The search form and the page controls of \<^verbatim>\<open>App.tsx\<close>\<close>

text \<open>The state hooks of the component, with their initial values.\<close>

datatype map_view = standard | satellite | terrain

record AppState =
  town_st :: string
  category_st :: string
  categories :: "Category list"
  results :: "SearchResult option"
  loading :: bool
  error :: string
  showMap :: bool
  mapView :: map_view
  currentPage :: int
  pageSize :: nat

definition initial_state :: AppState where
  "initial_state =
     \<lparr>town_st = [], category_st = [], categories = [], results = None, loading = False,
      error = [], showMap = False, mapView = standard, currentPage = 1, pageSize = 20\<rparr>"

text \<open>
  A call of the search endpoint, by the query parameters of the URL that \<^verbatim>\<open>fetch\<close> is
  given, and what can come back: a successful response with its JSON body, a response
  that is not \<^verbatim>\<open>ok\<close> with the \<^verbatim>\<open>detail\<close> of its body (empty when there is none), or an
  exception, with its message when it is an \<^verbatim>\<open>Error\<close>.
\<close>

record SearchRequest =
  req_town :: string
  req_category :: string
  req_page :: int
  req_limit :: nat

datatype response = Ok SearchResult | NotOk string | Thrown "string option"

text \<open>
  \<^verbatim>\<open>String.prototype.trim\<close> removes white space and line terminators from both ends;
  the characters are the ones below 256.
\<close>

definition white_space :: "char \<Rightarrow> bool" where
  "white_space c =
     (c \<in> set [CHR 0x09, CHR 0x0A, CHR 0x0B, CHR 0x0C, CHR 0x0D, CHR 0x20, CHR 0xA0])"

definition trim :: "string \<Rightarrow> string" where
  "trim s = rev (dropWhile white_space (rev (dropWhile white_space s)))"

text \<open>
  An asynchronous handler runs up to its \<^verbatim>\<open>await fetch(...)\<close>, returning the state it
  has set and the request it has issued, if any; its second half runs when the request
  settles.
\<close>

definition handleSearch :: "AppState \<Rightarrow> AppState \<times> SearchRequest option" where
  "handleSearch st =
     (if trim (town_st st) = [] \<or> category_st st = [] then (st, None)
      else (st\<lparr>loading := True, error := [], results := None, currentPage := 1\<rparr>,
            Some \<lparr>req_town = town_st st, req_category = category_st st,
                  req_page = 1, req_limit = pageSize st\<rparr>))"

definition handlePageChange :: "int \<Rightarrow> AppState \<Rightarrow> AppState \<times> SearchRequest option" where
  "handlePageChange pg st =
     (if trim (town_st st) = [] \<or> category_st st = [] \<or> loading st then (st, None)
      else (st\<lparr>loading := True, error := []\<rparr>,
            Some \<lparr>req_town = town_st st, req_category = category_st st,
                  req_page = pg, req_limit = pageSize st\<rparr>))"

definition failure_message :: "string \<Rightarrow> string option \<Rightarrow> string" where
  "failure_message fallback m = (case m of Some msg \<Rightarrow> msg | None \<Rightarrow> fallback)"

definition handleSearch_settled :: "response \<Rightarrow> AppState \<Rightarrow> AppState" where
  "handleSearch_settled resp st =
     (case resp of
        Ok data \<Rightarrow> st\<lparr>results := Some data\<rparr>
      | NotOk detail \<Rightarrow>
          st\<lparr>error := (if detail \<noteq> [] then detail else ''Failed to fetch places'')\<rparr>
      | Thrown m \<Rightarrow> st\<lparr>error := failure_message ''An error occurred'' m\<rparr>)
     \<lparr>loading := False\<rparr>"

definition handlePageChange_settled :: "int \<Rightarrow> response \<Rightarrow> AppState \<Rightarrow> AppState" where
  "handlePageChange_settled pg resp st =
     (case resp of
        Ok data \<Rightarrow> st\<lparr>results := Some data, currentPage := pg\<rparr>
      | NotOk detail \<Rightarrow>
          st\<lparr>error := (if detail \<noteq> [] then detail else ''Failed to fetch places'')\<rparr>
      | Thrown m \<Rightarrow> st\<lparr>error := failure_message ''An error occurred'' m\<rparr>)
     \<lparr>loading := False\<rparr>"

text \<open>The \<^verbatim>\<open>disabled\<close> attributes of the buttons.\<close>

definition submit_disabled :: "AppState \<Rightarrow> bool" where
  "submit_disabled st = (loading st \<or> trim (town_st st) = [] \<or> category_st st = [])"

definition previous_disabled :: "AppState \<Rightarrow> SearchResult \<Rightarrow> bool" where
  "previous_disabled st r = (\<not> has_prev (pagination r) \<or> loading st)"

definition next_disabled :: "AppState \<Rightarrow> SearchResult \<Rightarrow> bool" where
  "next_disabled st r = (\<not> has_next (pagination r) \<or> loading st)"

definition page_button_disabled :: "AppState \<Rightarrow> bool" where
  "page_button_disabled st = loading st"

text \<open>
  The component with the requests it has in flight, each with the handler that waits for
  it, and the events that reach it: the user's, which a disabled or unrendered control
  does not deliver, and the settling of a request.
\<close>

datatype handler = Search | PageChange int

record System =
  app :: AppState
  in_flight :: "(handler \<times> SearchRequest) list"

datatype event =
    TypeTown string
  | SelectCategory string
  | Submit
  | ToggleMap
  | ClickStandard
  | ClickPrevious
  | ClickPage nat
  | ClickNext
  | Settle nat response
  | CategoriesLoaded "Category list"
  | CategoriesFailed

definition initial_system :: System where
  "initial_system = \<lparr>app = initial_state, in_flight = []\<rparr>"

definition dispatch :: "handler \<Rightarrow> AppState \<times> SearchRequest option \<Rightarrow> System \<Rightarrow> System" where
  "dispatch h out s =
     s\<lparr>app := fst out,
       in_flight := in_flight s @ (case snd out of None \<Rightarrow> [] | Some q \<Rightarrow> [(h, q)])\<rparr>"

definition settled :: "handler \<Rightarrow> response \<Rightarrow> AppState \<Rightarrow> AppState" where
  "settled h resp st =
     (case h of
        Search \<Rightarrow> handleSearch_settled resp st
      | PageChange pg \<Rightarrow> handlePageChange_settled pg resp st)"

text \<open>
  The page that a click on a page control asks \<^verbatim>\<open>handlePageChange\<close> for, when the control
  is rendered and not disabled.
\<close>

fun page_control :: "event \<Rightarrow> AppState \<Rightarrow> int option" where
  "page_control ClickPrevious st =
     (case results st of
        None \<Rightarrow> None
      | Some r \<Rightarrow>
          if total_pages (pagination r) > 1 \<and> \<not> previous_disabled st r
          then Some (currentPage st - 1) else None)"
| "page_control (ClickPage i) st =
     (case pagination_controls (results st) (currentPage st) of
        None \<Rightarrow> None
      | Some ns \<Rightarrow>
          if i < length ns \<and> \<not> page_button_disabled st then Some (ns ! i) else None)"
| "page_control ClickNext st =
     (case results st of
        None \<Rightarrow> None
      | Some r \<Rightarrow>
          if total_pages (pagination r) > 1 \<and> \<not> next_disabled st r
          then Some (currentPage st + 1) else None)"
| "page_control _ st = None"

definition click_page_control :: "event \<Rightarrow> System \<Rightarrow> System" where
  "click_page_control e s =
     (case page_control e (app s) of
        None \<Rightarrow> s
      | Some pg \<Rightarrow> dispatch (PageChange pg) (handlePageChange pg (app s)) s)"

fun fire :: "event \<Rightarrow> System \<Rightarrow> System" where
  "fire (TypeTown t) s = s\<lparr>app := (app s)\<lparr>town_st := t\<rparr>\<rparr>"
| "fire (SelectCategory c) s =
     (if c \<in> set (map key (categories (app s)))
      then s\<lparr>app := (app s)\<lparr>category_st := c\<rparr>\<rparr> else s)"
| "fire Submit s =
     (if submit_disabled (app s) then s else dispatch Search (handleSearch (app s)) s)"
| "fire ToggleMap s =
     (case results (app s) of
        None \<Rightarrow> s
      | Some r \<Rightarrow> s\<lparr>app := (app s)\<lparr>showMap := \<not> showMap (app s)\<rparr>\<rparr>)"
| "fire ClickStandard s =
     (case results (app s) of
        None \<Rightarrow> s
      | Some r \<Rightarrow>
          if showMap (app s) then s\<lparr>app := (app s)\<lparr>mapView := standard\<rparr>\<rparr> else s)"
| "fire ClickPrevious s = click_page_control ClickPrevious s"
| "fire (ClickPage i) s = click_page_control (ClickPage i) s"
| "fire ClickNext s = click_page_control ClickNext s"
| "fire (Settle k resp) s =
     (if k < length (in_flight s)
      then s\<lparr>app := settled (fst (in_flight s ! k)) resp (app s),
             in_flight := take k (in_flight s) @ drop (Suc k) (in_flight s)\<rparr>
      else s)"
| "fire (CategoriesLoaded cats) s =
     s\<lparr>app := (app s)\<lparr>categories := cats,
                       category_st := (case cats of [] \<Rightarrow> category_st (app s)
                                       | c # _ \<Rightarrow> key c)\<rparr>\<rparr>"
| "fire CategoriesFailed s = s\<lparr>app := (app s)\<lparr>error := ''Failed to load categories''\<rparr>\<rparr>"

definition run :: "event list \<Rightarrow> System \<Rightarrow> System" where
  "run es s = foldl (\<lambda>s e. fire e s) s es"

text \<open>
  The invariant of the component: it is loading exactly while a request is in flight,
  and at most one is.
\<close>

definition one_at_a_time :: "System \<Rightarrow> bool" where
  "one_at_a_time s =
     ((loading (app s) \<longleftrightarrow> in_flight s \<noteq> []) \<and> length (in_flight s) \<le> 1)"

section \<open>The map view (\<^verbatim>\<open>SmartMap.tsx\<close>)\<close>

text \<open>
  \<^verbatim>\<open>L.latLngBounds\<close> of the map library builds a rectangle from a list of points by
  extending it point by point: the first point gives both corners, a later one moves a
  corner outwards with \<^verbatim>\<open>Math.min\<close> and \<^verbatim>\<open>Math.max\<close>. Without a point the bounds have
  no corners (\<open>None\<close>).
\<close>

record LatLngBounds =
  south :: rat
  west :: rat
  north :: rat
  east :: rat

fun extend_bounds :: "LatLngBounds option \<Rightarrow> rat \<times> rat \<Rightarrow> LatLngBounds option" where
  "extend_bounds None (la, lo) = Some \<lparr>south = la, west = lo, north = la, east = lo\<rparr>"
| "extend_bounds (Some b) (la, lo) =
     Some \<lparr>south = min la (south b), west = min lo (west b),
           north = max la (north b), east = max lo (east b)\<rparr>"

definition latLngBounds :: "(rat \<times> rat) list \<Rightarrow> LatLngBounds option" where
  "latLngBounds latlngs = foldl extend_bounds None latlngs"

text \<open>
  The calls a component makes on the map object; \<^verbatim>\<open>fitBounds\<close>, with its bounds and its
  padding, is the only one in the file.
\<close>

datatype map_call = FitBounds "LatLngBounds option" "nat \<times> nat"

text \<open>
  The effect of \<^verbatim>\<open>MapBounds\<close>, which React runs after the component is mounted and after
  every render with another \<^verbatim>\<open>places\<close> array.
\<close>

definition MapBounds :: "Place list \<Rightarrow> map_call list" where
  "MapBounds ps =
     (if length ps > 0
      then [FitBounds (latLngBounds (map (\<lambda>place. (lat place, lon place)) ps)) (20, 20)]
      else [])"

text \<open>
  The arithmetic of JavaScript numbers, which are IEEE 754 doubles. A finite number is
  its exact rational value (the sign of a zero is not kept). An operation takes the
  exact result and rounds it to the nearest double, to the one with the even significand
  of two nearest: the binary exponent of the value, not below that of the smallest normal
  number, gives the spacing \<open>2^(e - 52)\<close> of the doubles around it; a rounded magnitude
  of \<open>2^1024\<close> is an infinity.
\<close>

datatype number = Finite rat | PosInfinity | NegInfinity | NaN

fun log2_floor :: "nat \<Rightarrow> nat" where
  "log2_floor n = (if n < 2 then 0 else Suc (log2_floor (n div 2)))"

definition binary_exponent :: "rat \<Rightarrow> int" where
  \<comment> \<open>the integer \<open>e\<close> with \<open>2^e \<le> |x| < 2^(e + 1)\<close>, for \<open>x\<close> other than 0\<close>
  "binary_exponent x =
     (if 1 \<le> \<bar>x\<bar> then int (log2_floor (nat \<lfloor>\<bar>x\<bar>\<rfloor>))
      else - int (Suc (log2_floor (nat \<lceil>1 / \<bar>x\<bar>\<rceil> - 1))))"

definition round_to_even :: "rat \<Rightarrow> int" where
  "round_to_even y =
     (let f = \<lfloor>y\<rfloor>; r = y - of_int f
      in if r < 1 / 2 then f else if 1 / 2 < r then f + 1
         else if even f then f else f + 1)"

definition nearest_double :: "rat \<Rightarrow> number" where
  "nearest_double x =
     (if x = 0 then Finite 0
      else
        let q = 2 powi (max (binary_exponent x) (- 1022) - 52);
            r = of_int (round_to_even (x / q)) * q
        in if 2 ^ 1024 \<le> \<bar>r\<bar> then (if x < 0 then NegInfinity else PosInfinity)
           else Finite r)"

text \<open>
  The operator \<^verbatim>\<open>+\<close> on numbers, and the operator \<^verbatim>\<open>/\<close> with the length of an array as
  divisor.
\<close>

fun add_number :: "number \<Rightarrow> number \<Rightarrow> number" where
  "add_number (Finite a) (Finite b) = nearest_double (a + b)"
| "add_number NaN _ = NaN"
| "add_number _ NaN = NaN"
| "add_number PosInfinity NegInfinity = NaN"
| "add_number NegInfinity PosInfinity = NaN"
| "add_number PosInfinity _ = PosInfinity"
| "add_number _ PosInfinity = PosInfinity"
| "add_number NegInfinity _ = NegInfinity"
| "add_number _ NegInfinity = NegInfinity"

fun divide_by_length :: "number \<Rightarrow> nat \<Rightarrow> number" where
  "divide_by_length (Finite a) n =
     (if n = 0 then (if 0 < a then PosInfinity else if a < 0 then NegInfinity else NaN)
      else nearest_double (a / of_nat n))"
| "divide_by_length x n = x"

text \<open>
  What \<^verbatim>\<open>SmartMap\<close> renders: the map container with its initial center and zoom, one
  marker for each place (its key, its position and the title of its popup; the icon and
  the other lines of the popup are presentation), and the effect of its \<^verbatim>\<open>MapBounds\<close>
  child. The sums are the \<^verbatim>\<open>reduce\<close> calls, in the arithmetic of numbers: a coordinate
  enters as the number of its value, and the literals of the default center are the
  doubles nearest to them.
\<close>

record Marker =
  marker_key :: int
  position :: "rat \<times> rat"
  popup_title :: string

record MapContainer =
  center :: "number \<times> number"
  zoom :: nat
  markers :: "Marker list"
  effects :: "map_call list"

definition SmartMap :: "Place list \<Rightarrow> string \<Rightarrow> MapContainer" where
  "SmartMap ps cat =
     \<lparr>center =
        (if length ps > 0
         then (divide_by_length
                 (foldl (\<lambda>sum place. add_number sum (nearest_double (lat place)))
                    (nearest_double 0) ps)
                 (length ps),
               divide_by_length
                 (foldl (\<lambda>sum place. add_number sum (nearest_double (lon place)))
                    (nearest_double 0) ps)
                 (length ps))
         else (nearest_double 48.8566, nearest_double 2.3522)),
      zoom = 13,
      markers =
        map (\<lambda>place. \<lparr>marker_key = id_place place, position = (lat place, lon place),
                        popup_title = name place\<rparr>) ps,
      effects = MapBounds ps\<rparr>"

section \<open>The search-and-pagination pipeline of the backend\<close>

text \<open>
  Modelled from the spec: the backend is not among the sources, so this section follows
  the specification of the pipeline. The error kinds are invalid input (an unknown
  category, a non-positive page), a town the geocoder cannot resolve, an upstream
  failure, and anything else.
\<close>

datatype input_fault = InvalidCategory | NonPositivePage

datatype error = InvalidInput input_fault | NotFound | Unavailable | Unexpected

text \<open>
  Modelled from the spec: what the pagination layer hands to the search endpoint, the
  slice with its count, the total count and the pagination metadata.
\<close>

record 'a Paged =
  paged_places :: "'a list"
  paged_count :: nat
  paged_total :: nat
  paged_info :: PaginationInfo

definition total_pages_of :: "nat \<Rightarrow> nat \<Rightarrow> int" where
  \<comment> \<open>Modelled from the spec: the backend's computation of \<^verbatim>\<open>total_pages\<close> is not among the
      sources; "total pages (derived as ceiling of total_count / page size, minimum 1)".
      The spec speaks of valid page sizes, from 1 on; for a page size of 0 the quotient
      is 0 here and the result 1.\<close>
  "total_pages_of n sz = max 1 \<lceil>(of_nat n :: rat) / of_nat sz\<rceil>"

definition sub_slice :: "'a list \<Rightarrow> nat \<Rightarrow> nat \<Rightarrow> 'a list" where
  \<comment> \<open>Modelled from the spec: the backend's slicing is not among the sources; the
      sub-slice \<open>[lo, hi)\<close> of a list, clipped to the list bounds.\<close>
  "sub_slice xs lo hi = take (hi - lo) (drop lo xs)"

definition paginate :: "'a list \<Rightarrow> int \<Rightarrow> nat \<Rightarrow> error + 'a Paged" where
  \<comment> \<open>Modelled from the spec: the backend's pagination layer is not among the sources;
      "given the full normalized list, a 1-based page number, and a page size, returns the
      sub-slice \<open>[(page-1)*size, page*size)\<close> clipped to the list bounds, plus the
      PaginationInfo"; "requesting page 0 or negative is rejected as an invalid-input
      error"; \<open>has_prev == (page > 1)\<close>, \<open>has_next == (page < total_pages)\<close>.\<close>
  "paginate xs pg sz =
     (if pg < 1 then Inl (InvalidInput NonPositivePage)
      else
        let tp = total_pages_of (length xs) sz;
            sl = sub_slice xs (nat (pg - 1) * sz) (nat pg * sz)
        in Inr \<lparr>paged_places = sl, paged_count = length sl, paged_total = length xs,
                 paged_info = \<lparr>page = pg, limit = sz, total_pages = tp,
                                has_next = (pg < tp), has_prev = (pg > 1)\<rparr>\<rparr>)"

definition effective_limit :: "nat \<Rightarrow> nat \<Rightarrow> nat" where
  \<comment> \<open>Modelled from the spec: "Page size is bounded by a configured maximum [...];
      requests exceeding the bound are clamped to the maximum, not rejected". The
      configured maximum is the first argument.\<close>
  "effective_limit max_limit requested = (if requested > max_limit then max_limit else requested)"

definition paginate_request :: "nat \<Rightarrow> 'a list \<Rightarrow> int \<Rightarrow> nat \<Rightarrow> error + 'a Paged" where
  \<comment> \<open>Modelled from the spec: the pagination layer as the endpoint calls it, with the
      requested page size clamped first.\<close>
  "paginate_request max_limit xs pg requested =
     paginate xs pg (effective_limit max_limit requested)"

definition lookup_category ::
  "(Category \<times> string list) list \<Rightarrow> string \<Rightarrow> (Category \<times> string list) option" where
  \<comment> \<open>Modelled from the spec: the static category table is not among the sources; "one
      category key maps to one or more upstream tag predicates".\<close>
  "lookup_category table k = find (\<lambda>entry. key (fst entry) = k) table"

definition search_places ::
  "(Category \<times> string list) list \<Rightarrow> (string \<Rightarrow> error + string \<times> 'g) \<Rightarrow>
   ('g \<Rightarrow> string list \<Rightarrow> error + 'r list) \<Rightarrow> ('r \<Rightarrow> Place option) \<Rightarrow> nat \<Rightarrow>
   string \<Rightarrow> string \<Rightarrow> int \<Rightarrow> nat \<Rightarrow> error + SearchResult" where
  \<comment> \<open>Modelled from the spec: the search endpoint is not among the sources; "validates
      category key against the static category table (fails with InvalidCategory if
      unknown); invokes geocoder, place-query, normalizer, pagination in strict sequence",
      each stage returning early on its error. The geocoder (town name to resolved label
      and bounding region), the place query and the normalizer (\<open>None\<close> for a record
      that is skipped) are parameters.\<close>
  "search_places table geocode place_query normalizer max_limit twn cat pg requested =
     (case lookup_category table cat of
        None \<Rightarrow> Inl (InvalidInput InvalidCategory)
      | Some entry \<Rightarrow>
         (case geocode twn of
            Inl e \<Rightarrow> Inl e
          | Inr (resolved, region) \<Rightarrow>
             (case place_query region (snd entry) of
                Inl e \<Rightarrow> Inl e
              | Inr raws \<Rightarrow>
                 (case paginate_request max_limit (List.map_filter normalizer raws) pg requested of
                    Inl e \<Rightarrow> Inl e
                  | Inr p \<Rightarrow>
                      Inr \<lparr>town = resolved, category = cat, places = paged_places p,
                           count = paged_count p, total_count = paged_total p,
                           pagination = paged_info p\<rparr>))))"

section \<open>Example data\<close>

definition sample_place :: "int \<Rightarrow> Place" where
  "sample_place i = \<lparr>id_place = i, name = ''Cafe'', lat = 48 + of_int i / 1000,
     lon = 2 + of_int i / 1000, address = [], tags = []\<rparr>"

definition tenth_place :: "int \<Rightarrow> Place" where
  \<comment> \<open>a place at latitude 0.1, that is, at the double written so\<close>
  "tenth_place i = \<lparr>id_place = i, name = ''Cafe'', lat = 3602879701896397 / 2 ^ 55,
     lon = 0, address = [], tags = []\<rparr>"

definition sample_result :: SearchResult where
  "sample_result =
     \<lparr>town = ''Paris, France'', category = ''cafe'',
      places = map sample_place [1..20], count = 20, total_count = 47,
      pagination = \<lparr>page = 1, limit = 20, total_pages = 3,
                     has_next = True, has_prev = False\<rparr>\<rparr>"

definition sample_table :: "(Category \<times> string list) list" where
  "sample_table = [(\<lparr>key = ''cafe'', label = ''Cafes''\<rparr>, [''amenity=cafe''])]"

definition form_filled :: "event list" where
  "form_filled = [CategoriesLoaded [\<lparr>key = ''cafe'', label = ''Cafes''\<rparr>], TypeTown ''Paris'']"

definition first_page_shown :: "event list" where
  "first_page_shown = form_filled @ [Submit, Settle 0 (Ok sample_result)]"

section \<open>Properties of the page buttons\<close>

lemma length_page_buttons: "length (page_buttons tp cur) = nat (min 5 tp)"
  by (simp add: page_buttons_def)

lemma page_buttons_in_range:
  assumes "1 \<le> cur" and "cur \<le> tp" and "n \<in> set (page_buttons tp cur)"
  shows "1 \<le> n \<and> n \<le> tp"
proof -
  from assms(3) obtain i where i: "i < nat (min 5 tp)" and n: "n = pageNum tp cur (int i)"
    by (auto simp: page_buttons_def)
  from i have "int i < 5" and "int i < tp" by linarith+
  with assms(1,2) show ?thesis
    unfolding n pageNum_def by auto
qed

lemma current_page_shown:
  assumes "1 \<le> cur" and "cur \<le> tp"
  shows "cur \<in> set (page_buttons tp cur)"
proof -
  define i where "i =
    (if tp \<le> 5 then cur - 1 else if cur \<le> 3 then cur - 1
     else if cur \<ge> tp - 2 then cur - tp + 4 else 2)"
  have bounds: "0 \<le> i" "i < min 5 tp"
    using assms by (auto simp: i_def)
  have val: "pageNum tp cur i = cur"
    by (auto simp: pageNum_def i_def)
  from bounds have k: "nat i < nat (min 5 tp)" and ik: "int (nat i) = i" by linarith+
  have "set (page_buttons tp cur) = (\<lambda>j. pageNum tp cur (int j)) ` {0..<nat (min 5 tp)}"
    by (simp add: page_buttons_def)
  moreover have "nat i \<in> {0..<nat (min 5 tp)}" using k by simp
  ultimately have "pageNum tp cur (int (nat i)) \<in> set (page_buttons tp cur)"
    by (metis imageI)
  then show ?thesis by (simp only: ik val)
qed

text \<open>
  Claim C10. The pagination controls are rendered only when a result is shown whose
  \<open>total_pages\<close> exceeds 1. When they are rendered there are exactly \<open>min 5 total_pages\<close>
  numbered buttons (so at most that many), and when the current page lies between 1 and
  \<open>total_pages\<close>, every number shown lies in that range and the current page is one of them.
\<close>

theorem pagination_controls_window:
  assumes "pagination_controls res cur = Some ns"
  shows "\<exists>r. res = Some r \<and> total_pages (pagination r) > 1
           \<and> int (length ns) = min 5 (total_pages (pagination r))
           \<and> (1 \<le> cur \<and> cur \<le> total_pages (pagination r) \<longrightarrow>
                (\<forall>n \<in> set ns. 1 \<le> n \<and> n \<le> total_pages (pagination r)) \<and> cur \<in> set ns)"
proof (cases res)
  case None
  with assms show ?thesis by (simp add: pagination_controls_def)
next
  case (Some r)
  let ?tp = "total_pages (pagination r)"
  from assms Some have tp: "?tp > 1" and ns: "ns = page_buttons ?tp cur"
    by (auto simp: pagination_controls_def split: if_splits)
  have len: "int (length ns) = min 5 ?tp"
    using tp by (simp add: ns length_page_buttons)
  have rng: "1 \<le> cur \<and> cur \<le> ?tp \<longrightarrow>
      (\<forall>n \<in> set ns. 1 \<le> n \<and> n \<le> ?tp) \<and> cur \<in> set ns"
    using page_buttons_in_range current_page_shown unfolding ns by blast
  from Some tp len rng show ?thesis by blast
qed


theorem pagination_controls_window_witness:
  "pagination_controls
     (Some \<lparr>town = ''Paris'', category = ''cafe'', places = [], count = 0, total_count = 190,
            pagination = \<lparr>page = 7, limit = 20, total_pages = 10,
                           has_next = True, has_prev = True\<rparr>\<rparr>) 7
     = Some [5, 6, 7, 8, 9]
   \<and> (1::int) \<le> 7 \<and> (7::int) \<le> 10 \<and> (7::int) \<in> set [5, 6, 7, 8, 9]
   \<and> int (length [5, 6, 7, 8, 9 :: int]) = min 5 10"
proof -
  have h: "pagination_controls
     (Some \<lparr>town = ''Paris'', category = ''cafe'', places = [], count = 0, total_count = 190,
            pagination = \<lparr>page = 7, limit = 20, total_pages = 10,
                           has_next = True, has_prev = True\<rparr>\<rparr>) 7
     = Some [5, 6, 7, 8, 9]"
    by code_simp
  show ?thesis
    using pagination_controls_window[OF h] h by simp
qed

section \<open>Properties of the address line\<close>

declare digits.simps [simp del]

lemma digit_char_cases:
  assumes "d < 10"
  shows "is_digit (digit_char d) \<and> digit_value (digit_char d) = d"
proof -
  from assms have "d \<in> {0, 1, 2, 3, 4, 5, 6, 7, 8, 9}" by auto
  then show ?thesis
    by (auto simp: digit_char_def is_digit_def digit_value_def)
qed

lemma digits_nonempty: "digits n \<noteq> []"
  by (subst digits.simps) simp

lemma digits_are_digits: "c \<in> set (digits n) \<Longrightarrow> is_digit c"
proof (induction n rule: digits.induct)
  case (1 n)
  show ?case
  proof (cases "n < 10")
    case True
    with "1.prems" show ?thesis
      by (subst (asm) digits.simps) (simp add: digit_char_cases)
  next
    case False
    with "1.prems" have "c \<in> set (digits (n div 10)) \<or> c = digit_char (n mod 10)"
      by (subst (asm) digits.simps) auto
    then show ?thesis
      using "1.IH"[OF False] digit_char_cases[of "n mod 10"] by auto
  qed
qed

lemma decimal_value_snoc:
  "decimal_value (ds @ [c]) = 10 * decimal_value ds + digit_value c"
  by (simp add: decimal_value_def)

lemma decimal_value_digits: "decimal_value (digits n) = n"
proof (induction n rule: digits.induct)
  case (1 n)
  show ?case
  proof (cases "n < 10")
    case True
    then show ?thesis
      by (subst digits.simps) (simp add: decimal_value_def digit_char_cases)
  next
    case False
    have "decimal_value (digits n) = 10 * decimal_value (digits (n div 10)) + digit_value (digit_char (n mod 10))"
      using False by (subst digits.simps) (simp add: decimal_value_snoc)
    also have "\<dots> = 10 * (n div 10) + n mod 10"
      using "1.IH"[OF False] by (simp add: digit_char_cases)
    finally show ?thesis by simp
  qed
qed

lemma decimal_value_zeroes:
  "decimal_value (replicate k (CHR ''0'') @ ds) = decimal_value ds"
proof -
  have dv0: "digit_value (CHR ''0'') = 0"
    by (simp add: digit_value_def)
  have z: "foldl (\<lambda>acc c. 10 * acc + digit_value c) 0 (replicate k (CHR ''0'')) = 0"
    by (induction k) (simp_all add: dv0)
  show ?thesis by (simp add: decimal_value_def z)
qed


lemma toFixed_shape:
  assumes "0 < f" and "\<bar>x\<bar> < 10 ^ 21"
  shows "\<exists>a b. toFixed T f x = (if x < 0 then ''-'' else []) @ a @ ''.'' @ b
           \<and> a \<noteq> [] \<and> length b = f \<and> (\<forall>c \<in> set (a @ b). is_digit c)
           \<and> decimal_value (a @ b) = nat \<lfloor>\<bar>x\<bar> * 10 ^ f + 1 / 2\<rfloor>"
proof -
  define n where "n = nat \<lfloor>\<bar>x\<bar> * 10 ^ f + 1 / 2\<rfloor>"
  define k where "k = length (digits n)"
  define m where "m = (if k \<le> f then replicate (f + 1 - k) (CHR ''0'') else []) @ digits n"
  define k' where "k' = (if k \<le> f then f + 1 else k)"
  have k1: "1 \<le> k" using digits_nonempty[of n] by (cases "digits n") (simp_all add: k_def)
  have len: "length m = k'" by (auto simp: m_def k'_def k_def)
  have k'f: "f < k'" by (auto simp: k'_def)
  have small: "\<not> 10 ^ 21 \<le> \<bar>x\<bar>" and f0: "f \<noteq> 0"
    using assms by simp_all
  have eq: "toFixed T f x =
      (if x < 0 then ''-'' else []) @ take (k' - f) m @ ''.'' @ drop (k' - f) m"
    unfolding toFixed_def Let_def n_def k_def m_def k'_def
    by (simp only: small f0 if_False if_True simp_thms)
  have a: "take (k' - f) m \<noteq> []" using k'f len by auto
  have b: "length (drop (k' - f) m) = f" using k'f len by simp
  have zero: "is_digit (CHR ''0'')" by (simp add: is_digit_def)
  have "\<forall>c \<in> set m. is_digit c"
    using zero by (auto simp: m_def dest: digits_are_digits)
  then have c: "\<forall>c \<in> set (take (k' - f) m @ drop (k' - f) m). is_digit c"
    by (simp only: append_take_drop_id)
  have "decimal_value m = n"
    by (simp add: m_def decimal_value_zeroes decimal_value_digits)
  then have d: "decimal_value (take (k' - f) m @ drop (k' - f) m) = n"
    by (simp only: append_take_drop_id)
  from eq a b c d show ?thesis unfolding n_def by blast
qed


text \<open>
  Claim C6. For every place, \<^verbatim>\<open>formatAddress\<close> returns the address when it is not empty,
  and otherwise the latitude and the longitude, each printed by \<^verbatim>\<open>toFixed(4)\<close>, separated
  by a comma and a space. For coordinates below \<open>10^21\<close> in magnitude (every geographic
  coordinate is) each of the two is a minus sign when negative, at least one digit, a
  point, and exactly four digits, and the digits are those of the magnitude times
  \<open>10^4\<close>, rounded to the nearest integer.
\<close>

theorem formatAddress_display:
  "(address place \<noteq> [] \<longrightarrow> formatAddress T place = address place)
   \<and> (address place = [] \<longrightarrow>
        formatAddress T place = toFixed T 4 (lat place) @ '', '' @ toFixed T 4 (lon place))
   \<and> (address place = [] \<and> \<bar>lat place\<bar> < 10 ^ 21 \<and> \<bar>lon place\<bar> < 10 ^ 21 \<longrightarrow>
        (\<exists>a b c d.
           formatAddress T place =
             (if lat place < 0 then ''-'' else []) @ a @ ''.'' @ b @ '', '' @
             (if lon place < 0 then ''-'' else []) @ c @ ''.'' @ d
         \<and> a \<noteq> [] \<and> length b = 4 \<and> c \<noteq> [] \<and> length d = 4
         \<and> (\<forall>ch \<in> set (a @ b @ c @ d). is_digit ch)
         \<and> decimal_value (a @ b) = nat \<lfloor>\<bar>lat place\<bar> * 10 ^ 4 + 1 / 2\<rfloor>
         \<and> decimal_value (c @ d) = nat \<lfloor>\<bar>lon place\<bar> * 10 ^ 4 + 1 / 2\<rfloor>))"
proof -
  have shape: "\<exists>a b c d.
           formatAddress T place =
             (if lat place < 0 then ''-'' else []) @ a @ ''.'' @ b @ '', '' @
             (if lon place < 0 then ''-'' else []) @ c @ ''.'' @ d
         \<and> a \<noteq> [] \<and> length b = 4 \<and> c \<noteq> [] \<and> length d = 4
         \<and> (\<forall>ch \<in> set (a @ b @ c @ d). is_digit ch)
         \<and> decimal_value (a @ b) = nat \<lfloor>\<bar>lat place\<bar> * 10 ^ 4 + 1 / 2\<rfloor>
         \<and> decimal_value (c @ d) = nat \<lfloor>\<bar>lon place\<bar> * 10 ^ 4 + 1 / 2\<rfloor>"
    if e: "address place = []" and la: "\<bar>lat place\<bar> < 10 ^ 21" and lo: "\<bar>lon place\<bar> < 10 ^ 21"
  proof -
    have four: "0 < (4 :: nat)" by simp
    from toFixed_shape[OF four la, of T] obtain a b where
      ab: "toFixed T 4 (lat place) = (if lat place < 0 then ''-'' else []) @ a @ ''.'' @ b"
        "a \<noteq> []" "length b = 4" "\<forall>ch \<in> set (a @ b). is_digit ch"
        "decimal_value (a @ b) = nat \<lfloor>\<bar>lat place\<bar> * 10 ^ 4 + 1 / 2\<rfloor>"
      by blast
    from toFixed_shape[OF four lo, of T] obtain c d where
      cd: "toFixed T 4 (lon place) = (if lon place < 0 then ''-'' else []) @ c @ ''.'' @ d"
        "c \<noteq> []" "length d = 4" "\<forall>ch \<in> set (c @ d). is_digit ch"
        "decimal_value (c @ d) = nat \<lfloor>\<bar>lon place\<bar> * 10 ^ 4 + 1 / 2\<rfloor>"
      by blast
    have f: "formatAddress T place =
             (if lat place < 0 then ''-'' else []) @ a @ ''.'' @ b @ '', '' @
             (if lon place < 0 then ''-'' else []) @ c @ ''.'' @ d"
      using e by (simp add: formatAddress_def ab(1) cd(1))
    have dg: "\<forall>ch \<in> set (a @ b @ c @ d). is_digit ch"
      using ab(4) cd(4) by auto
    from f ab(2,3,5) cd(2,3,5) dg show ?thesis by blast
  qed
  have 1: "address place \<noteq> [] \<longrightarrow> formatAddress T place = address place"
    by (simp add: formatAddress_def)
  have 2: "address place = [] \<longrightarrow>
        formatAddress T place = toFixed T 4 (lat place) @ '', '' @ toFixed T 4 (lon place)"
    by (simp add: formatAddress_def)
  from 1 2 shape show ?thesis by blast
qed

theorem formatAddress_display_witness:
  "address ((sample_place 7)\<lparr>address := ''12 Rue de Rivoli''\<rparr>) \<noteq> []
   \<and> formatAddress (\<lambda>x. []) ((sample_place 7)\<lparr>address := ''12 Rue de Rivoli''\<rparr>)
       = ''12 Rue de Rivoli''
   \<and> address ((sample_place 7)\<lparr>lon := - 122.41941\<rparr>) = []
   \<and> \<bar>lat ((sample_place 7)\<lparr>lon := - 122.41941\<rparr>)\<bar> < 10 ^ 21
   \<and> \<bar>lon ((sample_place 7)\<lparr>lon := - 122.41941\<rparr>)\<bar> < 10 ^ 21
   \<and> formatAddress (\<lambda>x. []) ((sample_place 7)\<lparr>lon := - 122.41941\<rparr>)
       = ''48.0070, -122.4194''"
proof -
  let ?p = "(sample_place 7)\<lparr>address := ''12 Rue de Rivoli''\<rparr>"
  let ?q = "(sample_place 7)\<lparr>lon := - 122.41941\<rparr>"
  have a1: "address ?p \<noteq> []"
    by simp
  have a2: "address ?q = []"
    by (simp add: sample_place_def)
  have r: "\<bar>lat ?q\<bar> < 10 ^ 21" "\<bar>lon ?q\<bar> < 10 ^ 21"
    by (simp_all add: sample_place_def)
  have s: "\<not> 10 ^ 21 \<le> \<bar>lat ?q\<bar>" "\<not> 10 ^ 21 \<le> \<bar>lon ?q\<bar>" "\<not> lat ?q < 0" "lon ?q < 0"
    by (simp_all add: sample_place_def)
  have "\<lfloor>\<bar>lat ?q\<bar> * 10 ^ 4 + 1 / 2\<rfloor> = 480070"
    by (rule floor_unique) (simp_all add: sample_place_def)
  then have n1: "nat \<lfloor>\<bar>lat ?q\<bar> * 10 ^ 4 + 1 / 2\<rfloor> = 480070"
    by simp
  have "\<lfloor>\<bar>lon ?q\<bar> * 10 ^ 4 + 1 / 2\<rfloor> = 1224194"
    by (rule floor_unique) simp_all
  then have n2: "nat \<lfloor>\<bar>lon ?q\<bar> * 10 ^ 4 + 1 / 2\<rfloor> = 1224194"
    by simp
  have d1: "digits 480070 = ''480070''" and d2: "digits 1224194 = ''1224194''"
    by (simp_all add: digits.simps digit_char_def)
  have e: "toFixed (\<lambda>x. []) 4 (lat ?q) @ '', '' @ toFixed (\<lambda>x. []) 4 (lon ?q)
             = ''48.0070, -122.4194''"
    unfolding toFixed_def Let_def n1 n2 d1 d2 using s by simp
  from formatAddress_display[of ?p "\<lambda>x. []", THEN conjunct1, rule_format, OF a1]
  have f1: "formatAddress (\<lambda>x. []) ?p = ''12 Rue de Rivoli''"
    by simp
  from formatAddress_display[of ?q "\<lambda>x. []", THEN conjunct2, THEN conjunct1,
      rule_format, OF a2]
  have f2: "formatAddress (\<lambda>x. []) ?q = ''48.0070, -122.4194''"
    by (simp only: e)
  from a1 f1 a2 r f2 show ?thesis by (intro conjI)
qed

section \<open>Properties of the search form and the page controls\<close>

lemma handleSearch_issue:
  "\<not> submit_disabled st \<Longrightarrow>
     handleSearch st =
       (st\<lparr>loading := True, error := [], results := None, currentPage := 1\<rparr>,
        Some \<lparr>req_town = town_st st, req_category = category_st st,
              req_page = 1, req_limit = pageSize st\<rparr>)"
  by (simp add: handleSearch_def submit_disabled_def)

lemma handlePageChange_issue:
  "trim (town_st st) \<noteq> [] \<Longrightarrow> category_st st \<noteq> [] \<Longrightarrow> \<not> loading st \<Longrightarrow>
     handlePageChange pg st =
       (st\<lparr>loading := True, error := []\<rparr>,
        Some \<lparr>req_town = town_st st, req_category = category_st st,
              req_page = pg, req_limit = pageSize st\<rparr>)"
  by (simp add: handlePageChange_def)

lemma handlePageChange_cases:
  "\<not> loading st \<Longrightarrow>
     handlePageChange pg st = (st, None) \<or>
     (\<exists>q. handlePageChange pg st = (st\<lparr>loading := True, error := []\<rparr>, Some q))"
  by (simp add: handlePageChange_def)

lemma settled_loading: "loading (settled h resp st) = False"
  by (cases h; cases resp)
     (simp_all add: settled_def handleSearch_settled_def handlePageChange_settled_def)

lemma settled_pageSize: "pageSize (settled h resp st) = pageSize st"
  by (cases h; cases resp)
     (simp_all add: settled_def handleSearch_settled_def handlePageChange_settled_def)

lemma dispatch_None: "dispatch h (st, None) s = s\<lparr>app := st\<rparr>"
  by (simp add: dispatch_def)

lemma dispatch_Some:
  "dispatch h (st, Some q) s = s\<lparr>app := st, in_flight := in_flight s @ [(h, q)]\<rparr>"
  by (simp add: dispatch_def)

lemma page_control_idle: "page_control e st = Some pg \<Longrightarrow> \<not> loading st"
  by (cases e)
     (auto simp: previous_disabled_def next_disabled_def page_button_disabled_def
        split: option.splits if_splits)

lemma page_control_loading: "loading st \<Longrightarrow> page_control e st = None"
  using page_control_idle by (cases "page_control e st") auto

lemma click_page_control_one_at_a_time:
  assumes "one_at_a_time s"
  shows "one_at_a_time (click_page_control e s)"
proof (cases "page_control e (app s)")
  case None
  with assms show ?thesis by (simp add: click_page_control_def)
next
  case (Some pg)
  then have idle: "\<not> loading (app s)" by (rule page_control_idle)
  with assms have none: "in_flight s = []" by (simp add: one_at_a_time_def)
  from handlePageChange_cases[OF idle, of pg] show ?thesis
  proof
    assume "handlePageChange pg (app s) = (app s, None)"
    with Some assms show ?thesis
      by (simp add: click_page_control_def dispatch_None one_at_a_time_def)
  next
    assume "\<exists>q. handlePageChange pg (app s) = ((app s)\<lparr>loading := True, error := []\<rparr>, Some q)"
    with Some none show ?thesis
      by (auto simp: click_page_control_def dispatch_Some one_at_a_time_def)
  qed
qed

lemma fire_one_at_a_time:
  assumes "one_at_a_time s"
  shows "one_at_a_time (fire e s)"
proof (cases e)
  case Submit
  show ?thesis
  proof (cases "submit_disabled (app s)")
    case True
    with Submit assms show ?thesis by simp
  next
    case False
    then have "\<not> loading (app s)" by (simp add: submit_disabled_def)
    with assms have "in_flight s = []" by (simp add: one_at_a_time_def)
    with False Submit show ?thesis
      by (simp add: handleSearch_issue dispatch_Some one_at_a_time_def)
  qed
next
  case (Settle k resp)
  show ?thesis
  proof (cases "k < length (in_flight s)")
    case True
    with assms have "k = 0" and "length (in_flight s) = 1"
      by (auto simp: one_at_a_time_def)
    with Settle True show ?thesis
      by (simp add: one_at_a_time_def settled_loading)
  next
    case False
    with Settle assms show ?thesis by simp
  qed
next
  case ClickPrevious
  with assms show ?thesis by (simp add: click_page_control_one_at_a_time)
next
  case (ClickPage i)
  with assms show ?thesis by (simp add: click_page_control_one_at_a_time)
next
  case ClickNext
  with assms show ?thesis by (simp add: click_page_control_one_at_a_time)
qed (use assms in \<open>auto simp: one_at_a_time_def split: option.splits\<close>)

lemma run_one_at_a_time: "one_at_a_time s \<Longrightarrow> one_at_a_time (run es s)"
  unfolding run_def by (induction es arbitrary: s) (simp_all add: fire_one_at_a_time)

lemma initial_one_at_a_time: "one_at_a_time initial_system"
  by (simp add: one_at_a_time_def initial_system_def initial_state_def)

lemma reachable_one_at_a_time: "one_at_a_time (run es initial_system)"
  by (rule run_one_at_a_time[OF initial_one_at_a_time])

lemma click_page_control_pageSize:
  "pageSize (app (click_page_control e s)) = pageSize (app s)"
  by (auto simp: click_page_control_def dispatch_def handlePageChange_def split: option.splits)

lemma fire_pageSize: "pageSize (app (fire e s)) = pageSize (app s)"
  by (cases e)
     (auto simp: click_page_control_pageSize dispatch_def handleSearch_def settled_pageSize
        split: option.splits)

lemma run_pageSize: "pageSize (app (run es s)) = pageSize (app s)"
  unfolding run_def by (induction es arbitrary: s) (simp_all add: fire_pageSize)

lemma click_page_control_loading: "loading (app s) \<Longrightarrow> click_page_control e s = s"
  by (simp add: click_page_control_def page_control_loading)

lemma loading_blocks_requests:
  assumes "loading (app s)" and "\<forall>k resp. e \<noteq> Settle k resp"
  shows "in_flight (fire e s) = in_flight s"
  using assms
  by (cases e)
     (auto simp: submit_disabled_def click_page_control_loading split: option.splits)

lemma blank_click_idle:
  assumes pc: "page_control e (app s) = Some pg"
    and blank: "trim (town_st (app s)) = [] \<or> category_st (app s) = []"
  shows "fire e s = s"
proof -
  have "fire e s = click_page_control e s"
    using pc by (cases e) simp_all
  moreover have "handlePageChange pg (app s) = (app s, None)"
    using blank by (auto simp add: handlePageChange_def)
  ultimately show ?thesis
    using pc by (simp add: click_page_control_def dispatch_def)
qed

text \<open>
  Claim C7, as amended. In every state the component can reach: a submit (which the
  enabled submit button alone delivers) issues exactly one request, for page 1 and the
  town and category of the form; a click on an enabled page control issues exactly one
  request, for the page of that control and the town and category that the form holds at
  that moment, provided the town is not blank and a category is set; and while a request
  is in flight there is exactly one, the submit button and every page control are
  disabled, and no event other than the settling of that request changes the requests in
  flight. The page size of every request is 20. With a blank town or without a category,
  a click on an enabled page control changes nothing: no request is issued.
\<close>

theorem request_discipline:
  assumes "s = run es initial_system"
  shows "(\<not> submit_disabled (app s) \<longrightarrow>
            in_flight (fire Submit s) =
              [(Search, \<lparr>req_town = town_st (app s), req_category = category_st (app s),
                         req_page = 1, req_limit = 20\<rparr>)])
       \<and> (\<forall>e pg. page_control e (app s) = Some pg
                 \<and> trim (town_st (app s)) \<noteq> [] \<and> category_st (app s) \<noteq> [] \<longrightarrow>
            in_flight (fire e s) =
              [(PageChange pg, \<lparr>req_town = town_st (app s), req_category = category_st (app s),
                                req_page = pg, req_limit = 20\<rparr>)])
       \<and> (in_flight s \<noteq> [] \<longrightarrow>
            length (in_flight s) = 1 \<and> submit_disabled (app s)
            \<and> (\<forall>e. page_control e (app s) = None)
            \<and> (\<forall>e. (\<forall>k resp. e \<noteq> Settle k resp) \<longrightarrow> in_flight (fire e s) = in_flight s))
       \<and> (\<forall>e pg. page_control e (app s) = Some pg
                 \<and> (trim (town_st (app s)) = [] \<or> category_st (app s) = []) \<longrightarrow>
            fire e s = s)"
proof -
  have inv: "one_at_a_time s" unfolding assms by (rule reachable_one_at_a_time)
  have size: "pageSize (app s) = 20"
    unfolding assms by (simp add: run_pageSize initial_system_def initial_state_def)
  have a: "in_flight (fire Submit s) =
              [(Search, \<lparr>req_town = town_st (app s), req_category = category_st (app s),
                         req_page = 1, req_limit = 20\<rparr>)]"
    if "\<not> submit_disabled (app s)"
  proof -
    from that have "\<not> loading (app s)" by (simp add: submit_disabled_def)
    with inv have "in_flight s = []" by (simp add: one_at_a_time_def)
    with that size show ?thesis by (simp add: handleSearch_issue dispatch_Some)
  qed
  have b: "in_flight (fire e s) =
              [(PageChange pg, \<lparr>req_town = town_st (app s), req_category = category_st (app s),
                                req_page = pg, req_limit = 20\<rparr>)]"
    if pc: "page_control e (app s) = Some pg"
      and t: "trim (town_st (app s)) \<noteq> []" and c: "category_st (app s) \<noteq> []" for e pg
  proof -
    from pc have idle: "\<not> loading (app s)" by (rule page_control_idle)
    with inv have none: "in_flight s = []" by (simp add: one_at_a_time_def)
    have "fire e s = click_page_control e s"
      using pc by (cases e) simp_all
    with pc none size show ?thesis
      by (simp add: click_page_control_def handlePageChange_issue[OF t c idle] dispatch_Some)
  qed
  have c: "length (in_flight s) = 1 \<and> submit_disabled (app s)
            \<and> (\<forall>e. page_control e (app s) = None)
            \<and> (\<forall>e. (\<forall>k resp. e \<noteq> Settle k resp) \<longrightarrow> in_flight (fire e s) = in_flight s)"
    if "in_flight s \<noteq> []"
  proof -
    from that inv have l: "loading (app s)" and one: "length (in_flight s) = 1"
      by (cases "in_flight s"; simp add: one_at_a_time_def)+
    from l have "submit_disabled (app s)" by (simp add: submit_disabled_def)
    with l one show ?thesis
      by (simp add: page_control_loading loading_blocks_requests)
  qed
  have d: "fire e s = s"
    if "page_control e (app s) = Some pg"
      and "trim (town_st (app s)) = [] \<or> category_st (app s) = []" for e pg
    using that by (rule blank_click_idle)
  from a b c d show ?thesis by blast
qed

theorem request_discipline_witness:
  "\<not> submit_disabled (app (run form_filled initial_system))
   \<and> in_flight (fire Submit (run form_filled initial_system)) =
       [(Search, \<lparr>req_town = ''Paris'', req_category = ''cafe'', req_page = 1, req_limit = 20\<rparr>)]
   \<and> page_control ClickNext (app (run first_page_shown initial_system)) = Some 2
   \<and> trim (town_st (app (run first_page_shown initial_system))) \<noteq> []
   \<and> category_st (app (run first_page_shown initial_system)) \<noteq> []
   \<and> in_flight (fire ClickNext (run first_page_shown initial_system)) =
       [(PageChange 2,
         \<lparr>req_town = ''Paris'', req_category = ''cafe'', req_page = 2, req_limit = 20\<rparr>)]
   \<and> in_flight (run (form_filled @ [Submit]) initial_system) \<noteq> []
   \<and> in_flight (fire ClickNext (run (form_filled @ [Submit]) initial_system)) =
       in_flight (run (form_filled @ [Submit]) initial_system)
   \<and> in_flight (fire Submit (run (form_filled @ [Submit]) initial_system)) =
       [(Search, \<lparr>req_town = ''Paris'', req_category = ''cafe'', req_page = 1, req_limit = 20\<rparr>)]
   \<and> page_control ClickNext (app (run (first_page_shown @ [TypeTown '' '']) initial_system))
       = Some 2
   \<and> trim (town_st (app (run (first_page_shown @ [TypeTown '' '']) initial_system))) = []
   \<and> fire ClickNext (run (first_page_shown @ [TypeTown '' '']) initial_system)
       = run (first_page_shown @ [TypeTown '' '']) initial_system"
proof -
  have h1: "\<not> submit_disabled (app (run form_filled initial_system))"
    by code_simp
  have t1: "town_st (app (run form_filled initial_system)) = ''Paris''"
    and c1: "category_st (app (run form_filled initial_system)) = ''cafe''"
    by code_simp+
  have h2: "page_control ClickNext (app (run first_page_shown initial_system)) = Some 2"
    by code_simp
  have t2: "town_st (app (run first_page_shown initial_system)) = ''Paris''"
    and c2: "category_st (app (run first_page_shown initial_system)) = ''cafe''"
    and tr: "trim ''Paris'' \<noteq> []"
    by code_simp+
  have h3: "in_flight (run (form_filled @ [Submit]) initial_system) =
       [(Search, \<lparr>req_town = ''Paris'', req_category = ''cafe'', req_page = 1, req_limit = 20\<rparr>)]"
    by code_simp
  have busy: "in_flight (run (form_filled @ [Submit]) initial_system) \<noteq> []"
    by (simp add: h3)
  have w1: "in_flight (fire Submit (run form_filled initial_system)) =
       [(Search, \<lparr>req_town = ''Paris'', req_category = ''cafe'', req_page = 1, req_limit = 20\<rparr>)]"
    using request_discipline[OF refl, of form_filled, THEN conjunct1, rule_format, OF h1]
    by (simp only: t1 c1)
  have w2: "in_flight (fire ClickNext (run first_page_shown initial_system)) =
       [(PageChange 2,
         \<lparr>req_town = ''Paris'', req_category = ''cafe'', req_page = 2, req_limit = 20\<rparr>)]"
    using request_discipline[OF refl, of first_page_shown, THEN conjunct2, THEN conjunct1,
        rule_format, of ClickNext 2] h2 tr
    by (simp add: t2 c2)
  note w3 = request_discipline[OF refl, of "form_filled @ [Submit]", THEN conjunct2,
      THEN conjunct2, THEN conjunct1, rule_format, OF busy]
  have w3a: "in_flight (fire ClickNext (run (form_filled @ [Submit]) initial_system)) =
       in_flight (run (form_filled @ [Submit]) initial_system)"
    by (rule w3[THEN conjunct2, THEN conjunct2, THEN conjunct2, rule_format]) simp
  have w3b: "in_flight (fire Submit (run (form_filled @ [Submit]) initial_system)) =
       in_flight (run (form_filled @ [Submit]) initial_system)"
    by (rule w3[THEN conjunct2, THEN conjunct2, THEN conjunct2, rule_format]) simp
  have h4: "page_control ClickNext
        (app (run (first_page_shown @ [TypeTown '' '']) initial_system)) = Some 2"
    and b4: "trim (town_st (app (run (first_page_shown @ [TypeTown '' '']) initial_system))) = []"
    by code_simp+
  have w4: "fire ClickNext (run (first_page_shown @ [TypeTown '' '']) initial_system)
       = run (first_page_shown @ [TypeTown '' '']) initial_system"
    by (rule request_discipline[OF refl, of "first_page_shown @ [TypeTown '' '']",
          THEN conjunct2, THEN conjunct2, THEN conjunct2, rule_format, of ClickNext 2])
      (simp only: h4 b4 simp_thms)
  have front: "\<not> submit_disabled (app (run form_filled initial_system))
   \<and> in_flight (fire Submit (run form_filled initial_system)) =
       [(Search, \<lparr>req_town = ''Paris'', req_category = ''cafe'', req_page = 1, req_limit = 20\<rparr>)]
   \<and> page_control ClickNext (app (run first_page_shown initial_system)) = Some 2
   \<and> trim (town_st (app (run first_page_shown initial_system))) \<noteq> []
   \<and> category_st (app (run first_page_shown initial_system)) \<noteq> []
   \<and> in_flight (fire ClickNext (run first_page_shown initial_system)) =
       [(PageChange 2,
         \<lparr>req_town = ''Paris'', req_category = ''cafe'', req_page = 2, req_limit = 20\<rparr>)]
   \<and> in_flight (run (form_filled @ [Submit]) initial_system) \<noteq> []
   \<and> in_flight (fire ClickNext (run (form_filled @ [Submit]) initial_system)) =
       in_flight (run (form_filled @ [Submit]) initial_system)
   \<and> in_flight (fire Submit (run (form_filled @ [Submit]) initial_system)) =
       [(Search, \<lparr>req_town = ''Paris'', req_category = ''cafe'', req_page = 1, req_limit = 20\<rparr>)]"
    using h1 w1 h2 tr busy w2 w3a w3b by (simp add: t2 c2 h3)
  from front h4 b4 w4 show ?thesis by (simp only: simp_thms)
qed

text \<open>
  After a search for Paris is answered with a first page of three, the Next control is
  enabled. With the town field cleared to a blank, a click on it issues no request; with
  the town field changed to London, it asks for page 2 of London.
\<close>

theorem page_change_counterexample:
  "results (app (run (first_page_shown @ [TypeTown '' '']) initial_system)) = Some sample_result
   \<and> \<not> next_disabled (app (run (first_page_shown @ [TypeTown '' '']) initial_system)) sample_result
   \<and> page_control ClickNext (app (run (first_page_shown @ [TypeTown '' '']) initial_system)) = Some 2
   \<and> in_flight (fire ClickNext (run (first_page_shown @ [TypeTown '' '']) initial_system)) = []
   \<and> town sample_result = ''Paris, France''
   \<and> in_flight (fire ClickNext (run (first_page_shown @ [TypeTown ''London'']) initial_system)) =
       [(PageChange 2,
         \<lparr>req_town = ''London'', req_category = ''cafe'', req_page = 2, req_limit = 20\<rparr>)]"
  by code_simp

section \<open>Properties of the arithmetic of numbers\<close>

declare log2_floor.simps [simp del]

lemma log2_floor_bounds:
  "1 \<le> n \<Longrightarrow> 2 ^ log2_floor n \<le> n \<and> n < 2 ^ Suc (log2_floor n)"
proof (induction n rule: log2_floor.induct)
  case (1 n)
  show ?case
  proof (cases "n < 2")
    case True
    with "1.prems" have "n = 1" by simp
    then show ?thesis by (subst (1 2) log2_floor.simps) simp
  next
    case False
    then have "1 \<le> n div 2" by simp
    from "1.IH"[OF False this]
    have lo: "2 ^ log2_floor (n div 2) \<le> n div 2"
      and hi: "n div 2 < 2 ^ Suc (log2_floor (n div 2))" by simp_all
    have eq: "log2_floor n = Suc (log2_floor (n div 2))"
      using False by (subst log2_floor.simps) simp
    have "2 * 2 ^ log2_floor (n div 2) \<le> n" using lo by linarith
    moreover have "n < 2 * 2 ^ Suc (log2_floor (n div 2))" using hi by linarith
    ultimately show ?thesis by (simp add: eq)
  qed
qed


lemma binary_exponent_bounds:
  assumes "x \<noteq> 0"
  shows "2 powi binary_exponent x \<le> \<bar>x\<bar>" and "\<bar>x\<bar> < 2 powi (binary_exponent x + 1)"
proof -
  have "2 powi binary_exponent x \<le> \<bar>x\<bar> \<and> \<bar>x\<bar> < 2 powi (binary_exponent x + 1)"
  proof (cases "1 \<le> \<bar>x\<bar>")
    case True
    define n where "n = nat \<lfloor>\<bar>x\<bar>\<rfloor>"
    from True have fl: "1 \<le> \<lfloor>\<bar>x\<bar>\<rfloor>" by linarith
    then have n1: "1 \<le> n" and n: "int n = \<lfloor>\<bar>x\<bar>\<rfloor>" unfolding n_def by linarith+
    from log2_floor_bounds[OF n1]
    have lo: "2 ^ log2_floor n \<le> n" and hi: "n < 2 ^ Suc (log2_floor n)" by simp_all
    have e: "binary_exponent x = int (log2_floor n)"
      using True by (simp add: binary_exponent_def n_def)
    have "(2::rat) ^ log2_floor n \<le> of_nat n"
      using lo by (metis of_nat_le_iff of_nat_numeral of_nat_power)
    also have "(of_nat n :: rat) = of_int \<lfloor>\<bar>x\<bar>\<rfloor>" using n by (metis of_int_of_nat_eq)
    also have "\<dots> \<le> \<bar>x\<bar>" by simp
    finally have 1: "2 powi binary_exponent x \<le> \<bar>x\<bar>" by (simp add: e)
    have "int n + 1 \<le> 2 ^ Suc (log2_floor n)"
      using hi by (metis Suc_leI of_nat_Suc of_nat_le_iff of_nat_numeral of_nat_power add.commute plus_1_eq_Suc)
    then have "(of_int (\<lfloor>\<bar>x\<bar>\<rfloor> + 1) :: rat) \<le> of_int (2 ^ Suc (log2_floor n))"
      unfolding n by (simp only: of_int_le_iff)
    moreover have "\<bar>x\<bar> < of_int (\<lfloor>\<bar>x\<bar>\<rfloor> + 1)" by linarith
    ultimately have "\<bar>x\<bar> < of_int (2 ^ Suc (log2_floor n))" by linarith
    then have "\<bar>x\<bar> < 2 ^ Suc (log2_floor n)" by simp
    then have 2: "\<bar>x\<bar> < 2 powi (binary_exponent x + 1)"
      by (simp add: e power_int_add)
    from 1 2 show ?thesis ..
  next
    case False
    define y where "y = 1 / \<bar>x\<bar>"
    define m where "m = nat \<lceil>y\<rceil>"
    define c where "c = Suc (log2_floor (m - 1))"
    from assms have xpos: "0 < \<bar>x\<bar>" by simp
    with False have y1: "1 < y" by (simp add: y_def)
    then have cy: "2 \<le> \<lceil>y\<rceil>" by linarith
    then have m2: "2 \<le> m" and m: "int m = \<lceil>y\<rceil>" unfolding m_def by linarith+
    then have "1 \<le> m - 1" by simp
    from log2_floor_bounds[OF this]
    have lo: "2 ^ log2_floor (m - 1) \<le> m - 1" and hi: "m - 1 < 2 ^ c"
      by (simp_all add: c_def)
    have e: "binary_exponent x = - int c"
      using False by (simp add: binary_exponent_def c_def m_def y_def)
    have "m \<le> 2 ^ c" using hi m2 by linarith
    then have "(of_nat m :: rat) \<le> 2 ^ c"
      by (metis of_nat_le_iff of_nat_numeral of_nat_power)
    moreover have "y \<le> of_int \<lceil>y\<rceil>" by simp
    moreover have "(of_int \<lceil>y\<rceil> :: rat) = of_nat m" using m by (metis of_int_of_nat_eq)
    ultimately have yc: "y \<le> 2 ^ c" by linarith
    have "1 / 2 ^ c \<le> 1 / y"
      using yc y1 by (intro divide_left_mono) simp_all
    then have 1: "2 powi binary_exponent x \<le> \<bar>x\<bar>"
      by (simp add: e y_def power_int_minus_divide)
    have "int (2 ^ log2_floor (m - 1)) < \<lceil>y\<rceil>"
      using lo m m2 by linarith
    then have "(of_int (int (2 ^ log2_floor (m - 1))) :: rat) < y"
      by (simp only: less_ceiling_iff)
    then have ylo: "2 ^ log2_floor (m - 1) < y" by simp
    have ypos: "0 < y" using y1 by simp
    have "1 / y < 1 / 2 ^ log2_floor (m - 1)"
      using ylo ypos by (intro divide_strict_left_mono mult_pos_pos) simp_all
    moreover have "- int c + 1 = - int (log2_floor (m - 1))" by (simp add: c_def)
    ultimately have 2: "\<bar>x\<bar> < 2 powi (binary_exponent x + 1)"
      by (simp add: e y_def power_int_minus_divide)
    from 1 2 show ?thesis ..
  qed
  then show "2 powi binary_exponent x \<le> \<bar>x\<bar>" and "\<bar>x\<bar> < 2 powi (binary_exponent x + 1)"
    by simp_all
qed


lemma binary_exponent_unique:
  assumes "2 powi e \<le> \<bar>x\<bar>" and "\<bar>x\<bar> < 2 powi (e + 1)"
  shows "binary_exponent x = e"
proof -
  have "(0::rat) < 2 powi e" by simp
  with assms(1) have "0 < \<bar>x\<bar>" by linarith
  then have x: "x \<noteq> 0" by simp
  let ?b = "binary_exponent x"
  note b = binary_exponent_bounds[OF x]
  have "(2::rat) powi ?b < 2 powi (e + 1)" using b(1) assms(2) by linarith
  then have 1: "?b < e + 1"
    by (metis not_le power_int_increasing one_le_numeral)
  have "(2::rat) powi e < 2 powi (?b + 1)" using assms(1) b(2) by linarith
  then have 2: "e < ?b + 1"
    by (metis not_le power_int_increasing one_le_numeral)
  from 1 2 show ?thesis by linarith
qed

lemma round_to_even_error: "\<bar>of_int (round_to_even y) - y\<bar> \<le> 1 / 2"
proof -
  have "of_int \<lfloor>y\<rfloor> \<le> y" and "y < of_int \<lfloor>y\<rfloor> + 1" by linarith+
  then show ?thesis
    by (auto simp: round_to_even_def Let_def)
qed

lemma round_to_even_near:
  assumes "\<bar>y - of_int m\<bar> < 1 / 2"
  shows "round_to_even y = m"
proof (cases "of_int m \<le> y")
  case True
  with assms have "\<lfloor>y\<rfloor> = m" by (intro floor_unique) linarith+
  with assms True show ?thesis by (simp add: round_to_even_def Let_def)
next
  case False
  have eq: "(of_int (m - 1) :: rat) = of_int m - 1" by simp
  have lo: "of_int (m - 1) \<le> y" and hi: "y < of_int (m - 1) + 1"
    and r: "1 / 2 < y - of_int (m - 1)"
    unfolding eq using assms False by linarith+
  from lo hi have f: "\<lfloor>y\<rfloor> = m - 1" by (rule floor_unique)
  from r f show ?thesis by (simp add: round_to_even_def Let_def)
qed

lemma round_to_even_tie:
  assumes "y = of_int m + 1 / 2"
  shows "round_to_even y = (if even m then m else m + 1)"
proof -
  have f: "\<lfloor>y\<rfloor> = m" unfolding assms by (intro floor_unique) simp_all
  show ?thesis by (simp add: round_to_even_def Let_def f) (simp add: assms)
qed

lemma nearest_double_eval:
  assumes "2 powi e \<le> \<bar>x\<bar>" and "\<bar>x\<bar> < 2 powi (e + 1)" and "- 1022 \<le> e"
    and "round_to_even (x / 2 powi (e - 52)) = m"
    and "\<bar>of_int m * 2 powi (e - 52) :: rat\<bar> < 2 ^ 1024"
  shows "nearest_double x = Finite (of_int m * 2 powi (e - 52))"
proof -
  have "(0::rat) < 2 powi e" by simp
  with assms(1) have "0 < \<bar>x\<bar>" by linarith
  then have x: "x \<noteq> 0" by simp
  have b: "binary_exponent x = e" using assms(1,2) by (rule binary_exponent_unique)
  have mx: "max e (- 1022) = e" using assms(3) by simp
  have big: "\<not> 2 ^ 1024 \<le> \<bar>of_int m * 2 powi (e - 52) :: rat\<bar>"
    using assms(5) by (simp only: not_le)
  show ?thesis
    unfolding nearest_double_def Let_def b mx assms(4)
    by (simp only: x big if_False)
qed

lemma nearest_double_zero: "nearest_double 0 = Finite 0"
  by (simp add: nearest_double_def)


lemma nearest_double_error:
  assumes "\<bar>x\<bar> \<le> 2 ^ 1000"
  shows "\<exists>r. nearest_double x = Finite r \<and> \<bar>r - x\<bar> \<le> \<bar>x\<bar> / 2 ^ 53 + 1 / 2 ^ 1075"
proof (cases "x = 0")
  case True
  then show ?thesis by (simp add: nearest_double_zero)
next
  case False
  define e where "e = binary_exponent x"
  define q :: rat where "q = 2 powi (max e (- 1022) - 52)"
  define m where "m = round_to_even (x / q)"
  define r where "r = of_int m * q"
  have qpos: "0 < q" by (simp add: q_def)
  have "\<bar>of_int m - x / q\<bar> \<le> 1 / 2" unfolding m_def by (rule round_to_even_error)
  then have "\<bar>of_int m - x / q\<bar> * q \<le> 1 / 2 * q"
    using qpos by (intro mult_right_mono) simp_all
  moreover have "\<bar>of_int m - x / q\<bar> * q = \<bar>r - x\<bar>"
  proof -
    have "\<bar>of_int m - x / q\<bar> * q = \<bar>(of_int m - x / q) * q\<bar>"
      using qpos by (simp add: abs_mult)
    also have "(of_int m - x / q) * q = r - x"
      using qpos by (simp add: r_def algebra_simps)
    finally show ?thesis .
  qed
  ultimately have half: "\<bar>r - x\<bar> \<le> q / 2" by simp
  have qb: "q / 2 \<le> \<bar>x\<bar> / 2 ^ 53 + 1 / 2 ^ 1075"
  proof (cases "- 1022 \<le> e")
    case True
    then have "q = 2 powi e / 2 ^ 52" by (simp add: q_def power_int_diff)
    moreover have "2 powi e \<le> \<bar>x\<bar>"
      unfolding e_def using False by (rule binary_exponent_bounds)
    ultimately have "q / 2 \<le> \<bar>x\<bar> / 2 ^ 53" by simp
    then show ?thesis by (simp add: add_increasing2)
  next
    case False
    then have "max e (- 1022) - 52 = - 1074" by simp
    then have "q = 1 / 2 ^ 1074" unfolding q_def by (simp add: power_int_minus_divide)
    then show ?thesis by (simp add: add_increasing)
  qed
  have err: "\<bar>r - x\<bar> \<le> \<bar>x\<bar> / 2 ^ 53 + 1 / 2 ^ 1075" using half qb by linarith
  have "\<bar>x\<bar> / 2 ^ 53 \<le> \<bar>x\<bar>" by (simp add: divide_le_eq)
  moreover have "(1::rat) / 2 ^ 1075 \<le> 1" by simp
  ultimately have "\<bar>r\<bar> \<le> 2 * \<bar>x\<bar> + 1" using err by linarith
  also have "\<dots> \<le> 2 * 2 ^ 1000 + 1" using assms by simp
  also have "\<dots> < 2 ^ 1024" by simp
  finally have fin: "\<not> 2 ^ 1024 \<le> \<bar>r\<bar>" by (simp only: not_le)
  have "nearest_double x = Finite r"
    unfolding nearest_double_def Let_def e_def[symmetric] q_def[symmetric] m_def[symmetric]
      r_def[symmetric]
    using \<open>x \<noteq> 0\<close> fin by (simp only: if_False)
  with err show ?thesis by blast
qed

lemma nearest_double_close:
  assumes "\<bar>x\<bar> \<le> 2 ^ 1000"
  shows "\<exists>r. nearest_double x = Finite r \<and> \<bar>r - x\<bar> \<le> (\<bar>x\<bar> + 1) / 2 ^ 53"
proof -
  from nearest_double_error[OF assms] obtain r where
    r: "nearest_double x = Finite r" and e: "\<bar>r - x\<bar> \<le> \<bar>x\<bar> / 2 ^ 53 + 1 / 2 ^ 1075"
    by blast
  have "(1::rat) / 2 ^ 1075 \<le> 1 / 2 ^ 53"
    by (intro divide_left_mono power_increasing) simp_all
  with e have "\<bar>r - x\<bar> \<le> (\<bar>x\<bar> + 1) / 2 ^ 53" by (simp add: add_divide_distrib)
  with r show ?thesis by blast
qed


lemma abs_sum_list_le:
  fixes xs :: "rat list"
  assumes "\<forall>x \<in> set xs. \<bar>x\<bar> \<le> b"
  shows "\<bar>sum_list xs\<bar> \<le> of_nat (length xs) * b"
  using assms
proof (induction xs)
  case Nil
  show ?case by simp
next
  case (Cons x xs)
  then have "\<bar>sum_list xs\<bar> \<le> of_nat (length xs) * b" and "\<bar>x\<bar> \<le> b" by simp_all
  then have "\<bar>x + sum_list xs\<bar> \<le> b + of_nat (length xs) * b" by linarith
  then show ?case by (simp add: algebra_simps)
qed

lemma double_sum_error:
  fixes xs :: "rat list" and n :: nat
  assumes "length xs \<le> n" and "n \<le> 2 ^ 32" and "\<forall>x \<in> set xs. \<bar>x\<bar> \<le> 180"
  shows "\<exists>s. foldl (\<lambda>sum x. add_number sum (nearest_double x)) (Finite 0) xs = Finite s
           \<and> \<bar>s - sum_list xs\<bar> \<le> of_nat (length xs) * (of_nat (n + 2) / 2 ^ 44)"
  using assms(1,3)
proof (induction xs rule: rev_induct)
  case Nil
  show ?case by simp
next
  case (snoc x xs)
  define D :: rat where "D = of_nat (n + 2) / 2 ^ 44"
  define k where "k = length xs"
  from snoc.prems have len: "k + 1 \<le> n" and xb: "\<bar>x\<bar> \<le> 180"
    and xsb: "\<forall>x \<in> set xs. \<bar>x\<bar> \<le> 180"
    by (simp_all add: k_def)
  from len have "length xs \<le> n" by (simp add: k_def)
  from snoc.IH[OF this xsb] obtain s where
    s: "foldl (\<lambda>sum x. add_number sum (nearest_double x)) (Finite 0) xs = Finite s"
    and e: "\<bar>s - sum_list xs\<bar> \<le> of_nat k * D"
    unfolding D_def k_def by blast
  have nr: "(of_nat n :: rat) \<le> 2 ^ 32"
    using assms(2) by (metis of_nat_le_iff of_nat_numeral of_nat_power)
  have kn: "(of_nat k :: rat) + 1 \<le> of_nat n"
    using len by (metis of_nat_le_iff of_nat_add of_nat_1)
  have D0: "0 \<le> D" by (simp add: D_def)
  have D1: "D \<le> 1" using nr by (simp add: D_def)
  have kD: "of_nat k * D \<le> 2 ^ 32 * 1"
    using kn nr D0 D1 by (intro mult_mono) simp_all
  have k_small: "of_nat k / 2 ^ 53 * D \<le> 1 / 2 * D"
    using kn nr D0 by (intro mult_right_mono) simp_all
  have xbig: "\<bar>x\<bar> \<le> 2 ^ 1000" using xb by (rule order_trans) simp
  from nearest_double_close[OF xbig] obtain y where
    y: "nearest_double x = Finite y" and ye: "\<bar>y - x\<bar> \<le> (\<bar>x\<bar> + 1) / 2 ^ 53"
    by blast
  have "(\<bar>x\<bar> + 1) / 2 ^ 53 \<le> 181 / 2 ^ 53" using xb by (simp add: divide_le_cancel)
  with ye have ye': "\<bar>y - x\<bar> \<le> 181 / 2 ^ 53" by linarith
  have Sb: "\<bar>sum_list xs\<bar> \<le> of_nat k * 180"
    unfolding k_def using xsb by (rule abs_sum_list_le)
  have Sx: "\<bar>sum_list xs + x\<bar> \<le> of_nat n * 180" using Sb xb kn by linarith
  have te: "\<bar>(s + y) - (sum_list xs + x)\<bar> \<le> of_nat k * D + 181 / 2 ^ 53"
    using e ye' by linarith
  have "(181::rat) / 2 ^ 53 \<le> 1" by simp
  with te Sx have tb: "\<bar>s + y\<bar> \<le> of_nat n * 180 + of_nat k * D + 1"
    by linarith
  have "\<bar>s + y\<bar> \<le> 2 ^ 32 * 180 + 2 ^ 32 * 1 + 1" using tb nr kD by linarith
  also have "\<dots> \<le> (2::rat) ^ 1000" by simp
  finally have tbig: "\<bar>s + y\<bar> \<le> 2 ^ 1000" .
  from nearest_double_close[OF tbig] obtain r where
    r: "nearest_double (s + y) = Finite r" and re: "\<bar>r - (s + y)\<bar> \<le> (\<bar>s + y\<bar> + 1) / 2 ^ 53"
    by blast
  have re': "\<bar>r - (s + y)\<bar> \<le> (of_nat n * 180 + 2) / 2 ^ 53 + of_nat k / 2 ^ 53 * D"
  proof -
    have "(\<bar>s + y\<bar> + 1) / 2 ^ 53 \<le> (of_nat n * 180 + of_nat k * D + 2) / 2 ^ 53"
      using tb by (simp add: divide_le_cancel)
    also have "\<dots> = (of_nat n * 180 + 2) / 2 ^ 53 + of_nat k / 2 ^ 53 * D"
      by (simp add: add_divide_distrib)
    finally show ?thesis using re by linarith
  qed
  have c: "(of_nat n * 180 + 2) / 2 ^ 53 + 181 / 2 ^ 53 \<le> 1 / 2 * D"
    unfolding D_def by (simp add: field_simps)
  have "\<bar>r - (sum_list xs + x)\<bar> \<le> \<bar>r - (s + y)\<bar> + \<bar>(s + y) - (sum_list xs + x)\<bar>"
    by linarith
  also have "\<dots> \<le> of_nat k * D + D" using re' te k_small c by linarith
  also have "\<dots> = of_nat (length (xs @ [x])) * D" by (simp add: k_def algebra_simps)
  finally have err: "\<bar>r - sum_list (xs @ [x])\<bar> \<le> of_nat (length (xs @ [x])) * D" by simp
  have "foldl (\<lambda>sum x. add_number sum (nearest_double x)) (Finite 0) (xs @ [x]) = Finite r"
    by (simp add: s y r)
  with err show ?case unfolding D_def by blast
qed


lemma double_mean_error:
  fixes xs :: "rat list"
  assumes "xs \<noteq> []" and "length xs < 2 ^ 32" and "\<forall>x \<in> set xs. \<bar>x\<bar> \<le> 180"
  shows "\<exists>m. divide_by_length
               (foldl (\<lambda>sum x. add_number sum (nearest_double x)) (nearest_double 0) xs)
               (length xs) = Finite m
           \<and> \<bar>m - sum_list xs / of_nat (length xs)\<bar> \<le> of_nat (length xs + 3) / 2 ^ 44"
proof -
  define n where "n = length xs"
  define D :: rat where "D = of_nat (n + 2) / 2 ^ 44"
  from assms(1) have n0: "0 < n" by (simp add: n_def)
  then have npos: "(0::rat) < of_nat n" by simp
  from assms(2) have n32: "n \<le> 2 ^ 32" by (simp add: n_def)
  then have nr: "(of_nat n :: rat) \<le> 2 ^ 32"
    by (metis of_nat_le_iff of_nat_numeral of_nat_power)
  have "length xs \<le> n" by (simp add: n_def)
  from double_sum_error[OF this n32 assms(3)] obtain s where
    s: "foldl (\<lambda>sum x. add_number sum (nearest_double x)) (Finite 0) xs = Finite s"
    and e: "\<bar>s - sum_list xs\<bar> \<le> of_nat n * D"
    unfolding n_def D_def by blast
  have D0: "0 \<le> D" by (simp add: D_def)
  have D1: "D \<le> 1" using nr by (simp add: D_def)
  have "\<bar>s / of_nat n - sum_list xs / of_nat n\<bar> = \<bar>s - sum_list xs\<bar> / of_nat n"
    using npos by (simp add: diff_divide_distrib[symmetric])
  also have "\<dots> \<le> D"
    using e npos by (simp add: pos_divide_le_eq mult.commute)
  finally have qe: "\<bar>s / of_nat n - sum_list xs / of_nat n\<bar> \<le> D" .
  have "\<bar>sum_list xs\<bar> \<le> of_nat n * 180"
    unfolding n_def using assms(3) by (rule abs_sum_list_le)
  then have "\<bar>sum_list xs\<bar> / of_nat n \<le> 180"
    using npos by (simp add: pos_divide_le_eq mult.commute)
  then have mb: "\<bar>sum_list xs / of_nat n\<bar> \<le> 180" using npos by simp
  from qe mb D1 have qb: "\<bar>s / of_nat n\<bar> \<le> 181" by linarith
  then have "\<bar>s / of_nat n\<bar> \<le> 2 ^ 1000" by (rule order_trans) simp
  from nearest_double_close[OF this] obtain m where
    m: "nearest_double (s / of_nat n) = Finite m"
    and me: "\<bar>m - s / of_nat n\<bar> \<le> (\<bar>s / of_nat n\<bar> + 1) / 2 ^ 53"
    by blast
  have "\<bar>s / of_nat n\<bar> + 1 \<le> 182" using qb by linarith
  then have "(\<bar>s / of_nat n\<bar> + 1) / 2 ^ 53 \<le> 182 / 2 ^ 53"
    by (rule divide_right_mono) simp
  also have "\<dots> \<le> (1::rat) / 2 ^ 44" by simp
  finally have me': "\<bar>m - s / of_nat n\<bar> \<le> 1 / 2 ^ 44" using me by linarith
  have "\<bar>m - sum_list xs / of_nat n\<bar> \<le> D + 1 / 2 ^ 44" using me' qe by linarith
  also have "\<dots> = of_nat (n + 3) / 2 ^ 44" by (simp add: D_def add_divide_distrib)
  finally have err: "\<bar>m - sum_list xs / of_nat n\<bar> \<le> of_nat (n + 3) / 2 ^ 44" .
  have "divide_by_length
          (foldl (\<lambda>sum x. add_number sum (nearest_double x)) (nearest_double 0) xs) n
        = Finite m"
    using n0 by (simp add: nearest_double_zero s m)
  with err show ?thesis unfolding n_def by blast
qed


section \<open>Properties of the map view\<close>

lemma extend_chain:
  "\<exists>b'. foldl extend_bounds (Some b) pts = Some b'
     \<and> south b' \<le> south b \<and> west b' \<le> west b \<and> north b \<le> north b' \<and> east b \<le> east b'
     \<and> (\<forall>pt \<in> set pts. south b' \<le> fst pt \<and> fst pt \<le> north b'
                         \<and> west b' \<le> snd pt \<and> snd pt \<le> east b')
     \<and> (south b' = south b \<or> south b' \<in> fst ` set pts)
     \<and> (north b' = north b \<or> north b' \<in> fst ` set pts)
     \<and> (west b' = west b \<or> west b' \<in> snd ` set pts)
     \<and> (east b' = east b \<or> east b' \<in> snd ` set pts)"
proof (induction pts arbitrary: b)
  case Nil
  show ?case by simp
next
  case (Cons pt pts)
  obtain la lo where pt: "pt = (la, lo)" by (cases pt)
  let ?b1 = "\<lparr>south = min la (south b), west = min lo (west b),
                north = max la (north b), east = max lo (east b)\<rparr>"
  from Cons.IH[of ?b1] obtain b' where
    f: "foldl extend_bounds (Some ?b1) pts = Some b'"
    and m: "south b' \<le> south ?b1" "west b' \<le> west ?b1" "north ?b1 \<le> north b'"
      "east ?b1 \<le> east b'"
    and c: "\<forall>q \<in> set pts. south b' \<le> fst q \<and> fst q \<le> north b'
                         \<and> west b' \<le> snd q \<and> snd q \<le> east b'"
    and t: "south b' = south ?b1 \<or> south b' \<in> fst ` set pts"
      "north b' = north ?b1 \<or> north b' \<in> fst ` set pts"
      "west b' = west ?b1 \<or> west b' \<in> snd ` set pts"
      "east b' = east ?b1 \<or> east b' \<in> snd ` set pts"
    by blast
  have 1: "foldl extend_bounds (Some b) (pt # pts) = Some b'" using f by (simp add: pt)
  have 2: "south b' \<le> south b \<and> west b' \<le> west b \<and> north b \<le> north b' \<and> east b \<le> east b'"
    using m by simp
  have 3: "\<forall>q \<in> set (pt # pts). south b' \<le> fst q \<and> fst q \<le> north b'
                         \<and> west b' \<le> snd q \<and> snd q \<le> east b'"
    using m c by (simp add: pt)
  have 4: "south b' = south b \<or> south b' \<in> fst ` set (pt # pts)"
    using t(1) by (cases "la \<le> south b") (auto simp: pt)
  have 5: "north b' = north b \<or> north b' \<in> fst ` set (pt # pts)"
    using t(2) by (cases "la \<le> north b") (auto simp: pt)
  have 6: "west b' = west b \<or> west b' \<in> snd ` set (pt # pts)"
    using t(3) by (cases "lo \<le> west b") (auto simp: pt)
  have 7: "east b' = east b \<or> east b' \<in> snd ` set (pt # pts)"
    using t(4) by (cases "lo \<le> east b") (auto simp: pt)
  from 1 2 3 4 5 6 7 show ?case by blast
qed

lemma latLngBounds_box:
  assumes "pts \<noteq> []"
  shows "\<exists>b. latLngBounds pts = Some b
     \<and> (\<forall>pt \<in> set pts. south b \<le> fst pt \<and> fst pt \<le> north b
                        \<and> west b \<le> snd pt \<and> snd pt \<le> east b)
     \<and> south b \<in> fst ` set pts \<and> north b \<in> fst ` set pts
     \<and> west b \<in> snd ` set pts \<and> east b \<in> snd ` set pts"
proof -
  from assms obtain pt rest where pts: "pts = pt # rest" by (cases pts) auto
  obtain la lo where pt: "pt = (la, lo)" by (cases pt)
  let ?b0 = "\<lparr>south = la, west = lo, north = la, east = lo\<rparr>"
  from extend_chain[of ?b0 rest] obtain b where
    f: "foldl extend_bounds (Some ?b0) rest = Some b"
    and m: "south b \<le> la" "west b \<le> lo" "la \<le> north b" "lo \<le> east b"
    and c: "\<forall>q \<in> set rest. south b \<le> fst q \<and> fst q \<le> north b
                         \<and> west b \<le> snd q \<and> snd q \<le> east b"
    and t: "south b = la \<or> south b \<in> fst ` set rest"
      "north b = la \<or> north b \<in> fst ` set rest"
      "west b = lo \<or> west b \<in> snd ` set rest"
      "east b = lo \<or> east b \<in> snd ` set rest"
    by auto
  have 1: "latLngBounds pts = Some b" using f by (simp add: latLngBounds_def pts pt)
  have 2: "\<forall>q \<in> set pts. south b \<le> fst q \<and> fst q \<le> north b
                         \<and> west b \<le> snd q \<and> snd q \<le> east b"
    using m c by (simp add: pts pt)
  have 3: "south b \<in> fst ` set pts" "north b \<in> fst ` set pts"
    "west b \<in> snd ` set pts" "east b \<in> snd ` set pts"
    using t by (auto simp: pts pt)
  from 1 2 3 show ?thesis by blast
qed

text \<open>
  Claim C8, as amended. Whenever the map is given a list of places that is not empty, its
  effect is one call of \<^verbatim>\<open>fitBounds\<close>, with the bounding box of the places: every place
  lies inside, and each side passes through a place. The map makes no other call, and it
  renders one marker for each place of the list, in order, at the position of the place.
\<close>

theorem map_fits_bounds:
  "(ps \<noteq> [] \<longrightarrow>
      (\<exists>b. effects (SmartMap ps cat) = [FitBounds (Some b) (20, 20)]
          \<and> (\<forall>p \<in> set ps. south b \<le> lat p \<and> lat p \<le> north b
                           \<and> west b \<le> lon p \<and> lon p \<le> east b)
          \<and> south b \<in> lat ` set ps \<and> north b \<in> lat ` set ps
          \<and> west b \<in> lon ` set ps \<and> east b \<in> lon ` set ps))
   \<and> length (markers (SmartMap ps cat)) = length ps
   \<and> (\<forall>i < length ps.
         marker_key (markers (SmartMap ps cat) ! i) = id_place (ps ! i)
       \<and> position (markers (SmartMap ps cat) ! i) = (lat (ps ! i), lon (ps ! i))
       \<and> popup_title (markers (SmartMap ps cat) ! i) = name (ps ! i))"
proof -
  have box: "\<exists>b. effects (SmartMap ps cat) = [FitBounds (Some b) (20, 20)]
          \<and> (\<forall>p \<in> set ps. south b \<le> lat p \<and> lat p \<le> north b
                           \<and> west b \<le> lon p \<and> lon p \<le> east b)
          \<and> south b \<in> lat ` set ps \<and> north b \<in> lat ` set ps
          \<and> west b \<in> lon ` set ps \<and> east b \<in> lon ` set ps" if ne: "ps \<noteq> []"
  proof -
    let ?pts = "map (\<lambda>place. (lat place, lon place)) ps"
    from ne have "?pts \<noteq> []" by simp
    from latLngBounds_box[OF this] obtain b where
      b: "latLngBounds ?pts = Some b"
      and c: "\<forall>pt \<in> set ?pts. south b \<le> fst pt \<and> fst pt \<le> north b
                        \<and> west b \<le> snd pt \<and> snd pt \<le> east b"
      and t: "south b \<in> fst ` set ?pts" "north b \<in> fst ` set ?pts"
        "west b \<in> snd ` set ?pts" "east b \<in> snd ` set ?pts"
      by blast
    have fs: "fst ` set ?pts = lat ` set ps" "snd ` set ?pts = lon ` set ps"
      by (auto simp: image_image)
    have 1: "effects (SmartMap ps cat) = [FitBounds (Some b) (20, 20)]"
      using ne b by (simp add: SmartMap_def MapBounds_def)
    have 2: "\<forall>p \<in> set ps. south b \<le> lat p \<and> lat p \<le> north b
                           \<and> west b \<le> lon p \<and> lon p \<le> east b"
      using c by simp
    from 1 2 t show ?thesis unfolding fs by blast
  qed
  have mk: "length (markers (SmartMap ps cat)) = length ps
   \<and> (\<forall>i < length ps.
         marker_key (markers (SmartMap ps cat) ! i) = id_place (ps ! i)
       \<and> position (markers (SmartMap ps cat) ! i) = (lat (ps ! i), lon (ps ! i))
       \<and> popup_title (markers (SmartMap ps cat) ! i) = name (ps ! i))"
    by (simp add: SmartMap_def)
  from box mk show ?thesis by blast
qed

theorem map_fits_bounds_witness:
  "[sample_place 1, sample_place 4] \<noteq> []
   \<and> effects (SmartMap [sample_place 1, sample_place 4] ''cafe'') =
       [FitBounds (Some \<lparr>south = 48.001, west = 2.001, north = 48.004, east = 2.004\<rparr>) (20, 20)]
   \<and> (1 :: nat) < length [sample_place 1, sample_place 4]
   \<and> position (markers (SmartMap [sample_place 1, sample_place 4] ''cafe'') ! 1) =
       (48.004, 2.004)
   \<and> marker_key (markers (SmartMap [sample_place 1, sample_place 4] ''cafe'') ! 1) = 4
   \<and> length (markers (SmartMap [sample_place 1, sample_place 4] ''cafe'')) = 2"
proof -
  have ne: "[sample_place 1, sample_place 4] \<noteq> []" by simp
  have fit: "effects (SmartMap [sample_place 1, sample_place 4] ''cafe'') =
       [FitBounds (Some \<lparr>south = 48.001, west = 2.001, north = 48.004, east = 2.004\<rparr>) (20, 20)]"
    by (simp add: SmartMap_def MapBounds_def latLngBounds_def sample_place_def)
  have i: "(1 :: nat) < length [sample_place 1, sample_place 4]" by simp
  have p4: "id_place (sample_place 4) = 4" "lat (sample_place 4) = 48.004"
    "lon (sample_place 4) = 2.004"
    by (simp_all add: sample_place_def)
  note w = map_fits_bounds[of "[sample_place 1, sample_place 4]" "''cafe''"]
  from w[THEN conjunct2, THEN conjunct2, rule_format, OF i]
  have m: "position (markers (SmartMap [sample_place 1, sample_place 4] ''cafe'') ! 1) =
       (48.004, 2.004)"
    "marker_key (markers (SmartMap [sample_place 1, sample_place 4] ''cafe'') ! 1) = 4"
    by (simp_all add: p4)
  from w[THEN conjunct2, THEN conjunct1]
  have l: "length (markers (SmartMap [sample_place 1, sample_place 4] ''cafe'')) = 2"
    by simp
  from ne fit i m l show ?thesis by (intro conjI)
qed

text \<open>
  When the places shown change from one place to none, the effect for the new list makes
  no call: the viewport is not refitted.
\<close>

theorem empty_page_not_refitted_counterexample:
  "MapBounds [sample_place 1] =
     [FitBounds (Some \<lparr>south = 48.001, west = 2.001, north = 48.001, east = 2.001\<rparr>) (20, 20)]
   \<and> MapBounds [] = []
   \<and> effects (SmartMap [] ''cafe'') = []"
  by (simp add: SmartMap_def MapBounds_def latLngBounds_def sample_place_def)

lemma default_center:
  "nearest_double 48.8566 = Finite (3437977586790459 / 2 ^ 46)"
  "nearest_double 2.3522 = Finite (662085440218805 / 2 ^ 48)"
proof -
  have "round_to_even (48.8566 / 2 powi (5 - 52)) = 6875955173580918"
    by (rule round_to_even_near) simp
  then have "nearest_double 48.8566 = Finite (of_int 6875955173580918 * 2 powi (5 - 52))"
    by (intro nearest_double_eval) simp_all
  then show "nearest_double 48.8566 = Finite (3437977586790459 / 2 ^ 46)" by simp
  have "round_to_even (2.3522 / 2 powi (1 - 52)) = 5296683521750440"
    by (rule round_to_even_near) simp
  then have "nearest_double 2.3522 = Finite (of_int 5296683521750440 * 2 powi (1 - 52))"
    by (intro nearest_double_eval) simp_all
  then show "nearest_double 2.3522 = Finite (662085440218805 / 2 ^ 48)" by simp
qed

lemma tenth_is_double:
  "nearest_double (3602879701896397 / 2 ^ 55) = Finite (3602879701896397 / 2 ^ 55)"
proof -
  have "round_to_even (3602879701896397 / 2 ^ 55 / 2 powi (- 4 - 52)) = 7205759403792794"
    by (rule round_to_even_near) simp
  then have "nearest_double (3602879701896397 / 2 ^ 55)
      = Finite (of_int 7205759403792794 * 2 powi (- 4 - 52))"
    by (intro nearest_double_eval) simp_all
  then show ?thesis by simp
qed

lemma two_tenths:
  "nearest_double (3602879701896397 / 2 ^ 55 + 3602879701896397 / 2 ^ 55)
     = Finite (3602879701896397 / 2 ^ 54)"
proof -
  have "round_to_even ((3602879701896397 / 2 ^ 55 + 3602879701896397 / 2 ^ 55)
          / 2 powi (- 3 - 52)) = 7205759403792794"
    by (rule round_to_even_near) simp
  then have "nearest_double (3602879701896397 / 2 ^ 55 + 3602879701896397 / 2 ^ 55)
      = Finite (of_int 7205759403792794 * 2 powi (- 3 - 52))"
    by (intro nearest_double_eval) simp_all
  then show ?thesis by simp
qed

lemma three_tenths:
  "nearest_double (3602879701896397 / 2 ^ 54 + 3602879701896397 / 2 ^ 55)
     = Finite (1351079888211149 / 2 ^ 52)"
proof -
  have "round_to_even ((3602879701896397 / 2 ^ 54 + 3602879701896397 / 2 ^ 55)
          / 2 powi (- 2 - 52))
        = (if even (5404319552844595 :: int) then 5404319552844595 else 5404319552844595 + 1)"
    by (rule round_to_even_tie) simp
  then have "round_to_even ((3602879701896397 / 2 ^ 54 + 3602879701896397 / 2 ^ 55)
          / 2 powi (- 2 - 52)) = 5404319552844596"
    by simp
  then have "nearest_double (3602879701896397 / 2 ^ 54 + 3602879701896397 / 2 ^ 55)
      = Finite (of_int 5404319552844596 * 2 powi (- 2 - 52))"
    by (intro nearest_double_eval) simp_all
  then show ?thesis by simp
qed

lemma three_tenths_by_three:
  "nearest_double (1351079888211149 / 2 ^ 52 / of_nat 3) = Finite (7205759403792795 / 2 ^ 56)"
proof -
  have "round_to_even (1351079888211149 / 2 ^ 52 / of_nat 3 / 2 powi (- 4 - 52))
          = 7205759403792795"
    by (rule round_to_even_near) simp
  then have "nearest_double (1351079888211149 / 2 ^ 52 / of_nat 3)
      = Finite (of_int 7205759403792795 * 2 powi (- 4 - 52))"
    by (intro nearest_double_eval) simp_all
  then show ?thesis by simp
qed

lemma three_tenths_center:
  "center (SmartMap [tenth_place 1, tenth_place 2, tenth_place 3] ''cafe'')
     = (Finite (7205759403792795 / 2 ^ 56), Finite 0)"
proof -
  have la: "lat (tenth_place i) = 3602879701896397 / 2 ^ 55"
    and lo: "lon (tenth_place i) = 0" for i
    by (simp_all add: tenth_place_def)
  have 3: "length [tenth_place 1, tenth_place 2, tenth_place 3] = 3" by simp
  have "divide_by_length
          (foldl (\<lambda>sum place. add_number sum (nearest_double (lat place)))
             (nearest_double 0) [tenth_place 1, tenth_place 2, tenth_place 3]) 3
        = Finite (7205759403792795 / 2 ^ 56)"
    unfolding foldl_Cons foldl_Nil la nearest_double_zero tenth_is_double add_number.simps
      add_0 two_tenths three_tenths
    using three_tenths_by_three by simp
  moreover have "divide_by_length
          (foldl (\<lambda>sum place. add_number sum (nearest_double (lon place)))
             (nearest_double 0) [tenth_place 1, tenth_place 2, tenth_place 3]) 3
        = Finite 0"
    by (simp add: lo nearest_double_zero)
  ultimately show ?thesis
    unfolding SmartMap_def 3 by simp
qed


text \<open>
  Claim C9, as amended. With an empty list of places \<^verbatim>\<open>SmartMap\<close> never calls
  \<^verbatim>\<open>fitBounds\<close> and the center of the map is the default one, the doubles written
  \<open>48.8566\<close> and \<open>2.3522\<close>. With a list that is not empty (an array has fewer than
  \<open>2^32\<close> elements) and coordinates of magnitude at most 180, the initial center is a
  pair of finite numbers, the means of the latitudes and of the longitudes as double
  arithmetic computes them: each lies within \<open>(n + 3) / 2^44\<close> of the arithmetic mean of
  the \<open>n\<close> values.
\<close>

theorem map_center:
  "effects (SmartMap [] cat) = []
   \<and> center (SmartMap [] cat) = (nearest_double 48.8566, nearest_double 2.3522)
   \<and> center (SmartMap [] cat)
       = (Finite (3437977586790459 / 2 ^ 46), Finite (662085440218805 / 2 ^ 48))
   \<and> (ps \<noteq> [] \<and> length ps < 2 ^ 32 \<and> (\<forall>p \<in> set ps. \<bar>lat p\<bar> \<le> 180 \<and> \<bar>lon p\<bar> \<le> 180) \<longrightarrow>
        (\<exists>la lo.
           center (SmartMap ps cat) = (Finite la, Finite lo)
         \<and> \<bar>la - sum_list (map lat ps) / of_nat (length ps)\<bar> \<le> of_nat (length ps + 3) / 2 ^ 44
         \<and> \<bar>lo - sum_list (map lon ps) / of_nat (length ps)\<bar> \<le> of_nat (length ps + 3) / 2 ^ 44))"
proof -
  have empty: "effects (SmartMap [] cat) = []"
    "center (SmartMap [] cat) = (nearest_double 48.8566, nearest_double 2.3522)"
    by (simp_all add: SmartMap_def MapBounds_def)
  have mean: "\<exists>la lo.
           center (SmartMap ps cat) = (Finite la, Finite lo)
         \<and> \<bar>la - sum_list (map lat ps) / of_nat (length ps)\<bar> \<le> of_nat (length ps + 3) / 2 ^ 44
         \<and> \<bar>lo - sum_list (map lon ps) / of_nat (length ps)\<bar> \<le> of_nat (length ps + 3) / 2 ^ 44"
    if ne: "ps \<noteq> []" and len: "length ps < 2 ^ 32"
      and geo: "\<forall>p \<in> set ps. \<bar>lat p\<bar> \<le> 180 \<and> \<bar>lon p\<bar> \<le> 180"
  proof -
    have fold: "foldl (\<lambda>sum place. add_number sum (nearest_double (f place))) a ps
        = foldl (\<lambda>sum x. add_number sum (nearest_double x)) a (map f ps)"
      for f :: "Place \<Rightarrow> rat" and a
      by (simp add: foldl_map)
    from ne have ne': "map lat ps \<noteq> []" "map lon ps \<noteq> []" by simp_all
    from len have len': "length (map lat ps) < 2 ^ 32" "length (map lon ps) < 2 ^ 32"
      by simp_all
    from geo have geo': "\<forall>x \<in> set (map lat ps). \<bar>x\<bar> \<le> 180"
      "\<forall>x \<in> set (map lon ps). \<bar>x\<bar> \<le> 180"
      by simp_all
    from double_mean_error[OF ne'(1) len'(1) geo'(1)] obtain la where
      la: "divide_by_length
             (foldl (\<lambda>sum x. add_number sum (nearest_double x)) (nearest_double 0)
                (map lat ps)) (length ps) = Finite la"
        "\<bar>la - sum_list (map lat ps) / of_nat (length ps)\<bar> \<le> of_nat (length ps + 3) / 2 ^ 44"
      by auto
    from double_mean_error[OF ne'(2) len'(2) geo'(2)] obtain lo where
      lo: "divide_by_length
             (foldl (\<lambda>sum x. add_number sum (nearest_double x)) (nearest_double 0)
                (map lon ps)) (length ps) = Finite lo"
        "\<bar>lo - sum_list (map lon ps) / of_nat (length ps)\<bar> \<le> of_nat (length ps + 3) / 2 ^ 44"
      by auto
    have "center (SmartMap ps cat) = (Finite la, Finite lo)"
      using ne by (simp add: SmartMap_def fold la(1) lo(1))
    with la(2) lo(2) show ?thesis by blast
  qed
  from empty mean show ?thesis
    by (simp only: default_center) blast
qed

theorem map_center_witness:
  "effects (SmartMap [] ''cafe'') = []
   \<and> center (SmartMap [] ''cafe'')
       = (Finite (3437977586790459 / 2 ^ 46), Finite (662085440218805 / 2 ^ 48))
   \<and> [tenth_place 1, tenth_place 2, tenth_place 3] \<noteq> []
   \<and> length [tenth_place 1, tenth_place 2, tenth_place 3] < 2 ^ 32
   \<and> \<bar>lat (tenth_place 1)\<bar> \<le> 180 \<and> \<bar>lon (tenth_place 1)\<bar> \<le> 180
   \<and> \<bar>lat (tenth_place 2)\<bar> \<le> 180 \<and> \<bar>lon (tenth_place 2)\<bar> \<le> 180
   \<and> \<bar>lat (tenth_place 3)\<bar> \<le> 180 \<and> \<bar>lon (tenth_place 3)\<bar> \<le> 180
   \<and> center (SmartMap [tenth_place 1, tenth_place 2, tenth_place 3] ''cafe'')
       = (Finite (7205759403792795 / 2 ^ 56), Finite 0)
   \<and> \<bar>7205759403792795 / 2 ^ 56
        - sum_list (map lat [tenth_place 1, tenth_place 2, tenth_place 3])
            / of_nat (length [tenth_place 1, tenth_place 2, tenth_place 3])\<bar>
       \<le> of_nat (length [tenth_place 1, tenth_place 2, tenth_place 3] + 3) / 2 ^ 44"
proof -
  let ?ps = "[tenth_place 1, tenth_place 2, tenth_place 3]"
  note w = map_center[of "''cafe''" ?ps]
  have ne: "?ps \<noteq> []" and len: "length ?ps < 2 ^ 32" by simp_all
  have geo1: "\<bar>lat (tenth_place 1)\<bar> \<le> 180" "\<bar>lon (tenth_place 1)\<bar> \<le> 180"
    "\<bar>lat (tenth_place 2)\<bar> \<le> 180" "\<bar>lon (tenth_place 2)\<bar> \<le> 180"
    "\<bar>lat (tenth_place 3)\<bar> \<le> 180" "\<bar>lon (tenth_place 3)\<bar> \<le> 180"
    by (simp_all add: tenth_place_def)
  have geo: "\<forall>p \<in> set ?ps. \<bar>lat p\<bar> \<le> 180 \<and> \<bar>lon p\<bar> \<le> 180"
    by (simp add: tenth_place_def)
  from w[THEN conjunct2, THEN conjunct2, THEN conjunct2, rule_format, OF conjI[OF ne conjI[OF len geo]]]
  obtain la lo where
    c: "center (SmartMap ?ps ''cafe'') = (Finite la, Finite lo)"
    and b: "\<bar>la - sum_list (map lat ?ps) / of_nat (length ?ps)\<bar> \<le> of_nat (length ?ps + 3) / 2 ^ 44"
    by blast
  from c have la: "la = 7205759403792795 / 2 ^ 56"
    by (simp add: three_tenths_center)
  from b have bound: "\<bar>7205759403792795 / 2 ^ 56
        - sum_list (map lat ?ps) / of_nat (length ?ps)\<bar> \<le> of_nat (length ?ps + 3) / 2 ^ 44"
    unfolding la .
  from w[THEN conjunct1] w[THEN conjunct2, THEN conjunct2, THEN conjunct1] ne len geo1
    three_tenths_center bound
  show ?thesis by (intro conjI)
qed

text \<open>
  Three places at latitude 0.1 (the double written so) and longitude 0: the sum of the
  latitudes rounds up at the third addition, and the center is at the next double above
  0.1, which is not the mean of the latitudes.
\<close>

theorem mean_rounding_counterexample:
  "nearest_double (lat (tenth_place 1)) = Finite (lat (tenth_place 1))
   \<and> center (SmartMap [tenth_place 1, tenth_place 2, tenth_place 3] ''cafe'')
       = (Finite (7205759403792795 / 2 ^ 56), Finite 0)
   \<and> sum_list (map lat [tenth_place 1, tenth_place 2, tenth_place 3])
        / of_nat (length [tenth_place 1, tenth_place 2, tenth_place 3])
       = 7205759403792794 / 2 ^ 56
   \<and> (7205759403792795 / 2 ^ 56 :: rat) \<noteq> 7205759403792794 / 2 ^ 56"
proof -
  have la: "lat (tenth_place 1) = 3602879701896397 / 2 ^ 55"
    by (simp add: tenth_place_def)
  have "nearest_double (lat (tenth_place 1)) = Finite (lat (tenth_place 1))"
    by (simp only: la tenth_is_double)
  moreover have "sum_list (map lat [tenth_place 1, tenth_place 2, tenth_place 3])
        / of_nat (length [tenth_place 1, tenth_place 2, tenth_place 3])
       = (7205759403792794 / 2 ^ 56 :: rat)"
    by (simp add: tenth_place_def)
  moreover have "(7205759403792795 / 2 ^ 56 :: rat) \<noteq> 7205759403792794 / 2 ^ 56"
    by simp
  ultimately show ?thesis
    using three_tenths_center by (intro conjI)
qed

section \<open>Properties of the pagination layer\<close>

lemma ceiling_nat_div:
  assumes "1 \<le> sz"
  shows "\<lceil>(of_nat n :: rat) / of_nat sz\<rceil> = int ((n + sz - 1) div sz)"
proof (rule ceiling_unique)
  let ?q = "(n + sz - 1) div sz"
  have pos: "(0::rat) < of_nat sz" using assms by simp
  have "?q * sz \<le> n + sz - 1" by simp
  with assms have "?q * sz < n + sz" by linarith
  then have "(of_nat (?q * sz) :: rat) < of_nat (n + sz)" by (simp only: of_nat_less_iff)
  then have lo: "(of_nat ?q - 1) * (of_nat sz :: rat) < of_nat n"
    by (simp add: algebra_simps)
  have "n + sz - 1 < ?q * sz + sz"
    using assms dividend_less_div_times[of sz "n + sz - 1"] by (simp add: mult.commute)
  with assms have "n \<le> ?q * sz" by linarith
  then have "(of_nat n :: rat) \<le> of_nat (?q * sz)" by (simp only: of_nat_le_iff)
  then have hi: "(of_nat n :: rat) \<le> of_nat ?q * of_nat sz" by simp
  show "of_int (int ?q) - 1 < (of_nat n :: rat) / of_nat sz"
    using lo pos by (simp add: pos_less_divide_eq)
  show "(of_nat n :: rat) / of_nat sz \<le> of_int (int ?q)"
    using hi pos by (simp add: pos_divide_le_eq)
qed

lemma total_pages_of_div:
  "1 \<le> sz \<Longrightarrow> total_pages_of n sz = max 1 (int ((n + sz - 1) div sz))"
  by (simp add: total_pages_of_def ceiling_nat_div)

lemma total_pages_of_ge1: "1 \<le> total_pages_of n sz"
  by (simp add: total_pages_of_def)

lemma total_pages_of_ceiling:
  "1 \<le> n \<Longrightarrow> 1 \<le> sz \<Longrightarrow> total_pages_of n sz = \<lceil>(of_nat n :: rat) / of_nat sz\<rceil>"
proof -
  assume n: "1 \<le> n" and sz: "1 \<le> sz"
  have "(0::rat) < of_nat n / of_nat sz" using n sz by simp
  then have "0 < \<lceil>(of_nat n :: rat) / of_nat sz\<rceil>" by (simp only: zero_less_ceiling)
  then show ?thesis by (simp add: total_pages_of_def)
qed

lemma total_pages_of_zero: "total_pages_of 0 sz = 1"
  by (simp add: total_pages_of_def)

lemma total_pages_of_bounds:
  assumes "1 \<le> n" and "1 \<le> sz"
  shows "(total_pages_of n sz - 1) * int sz < int n \<and> int n \<le> total_pages_of n sz * int sz"
proof -
  let ?c = "\<lceil>(of_nat n :: rat) / of_nat sz\<rceil>"
  have pos: "(0::rat) < of_nat sz" using assms by simp
  have tp: "total_pages_of n sz = ?c" using assms by (rule total_pages_of_ceiling)
  have "of_int ?c - 1 < (of_nat n :: rat) / of_nat sz" by linarith
  with pos have "(of_int ?c - 1) * (of_nat sz :: rat) < of_nat n"
    by (simp only: pos_less_divide_eq)
  then have "(of_int ((?c - 1) * int sz) :: rat) < of_int (int n)" by simp
  then have lo: "(?c - 1) * int sz < int n" by (simp only: of_int_less_iff)
  have "(of_nat n :: rat) / of_nat sz \<le> of_int ?c" by linarith
  with pos have "(of_nat n :: rat) \<le> of_int ?c * of_nat sz"
    by (simp only: pos_divide_le_eq)
  then have "(of_int (int n) :: rat) \<le> of_int (?c * int sz)" by simp
  then have hi: "int n \<le> ?c * int sz" by (simp only: of_int_le_iff)
  from lo hi show ?thesis by (simp only: tp)
qed


lemma length_sub_slice:
  "length (sub_slice xs lo hi) = min hi (length xs) - min lo (length xs)"
  by (auto simp: sub_slice_def min_def)

lemma nth_sub_slice:
  "i < length (sub_slice xs lo hi) \<Longrightarrow> sub_slice xs lo hi ! i = xs ! (lo + i)"
  by (cases "lo \<le> length xs") (simp_all add: sub_slice_def)

lemma sub_slice_beyond: "length xs \<le> lo \<Longrightarrow> sub_slice xs lo hi = []"
  by (simp add: sub_slice_def)

lemma paginate_Inl: "pg < 1 \<Longrightarrow> paginate xs pg sz = Inl (InvalidInput NonPositivePage)"
  by (simp add: paginate_def)

lemma paginate_Inr:
  "1 \<le> pg \<Longrightarrow> paginate xs pg sz =
     Inr \<lparr>paged_places = sub_slice xs (nat (pg - 1) * sz) (nat pg * sz),
          paged_count = length (sub_slice xs (nat (pg - 1) * sz) (nat pg * sz)),
          paged_total = length xs,
          paged_info = \<lparr>page = pg, limit = sz, total_pages = total_pages_of (length xs) sz,
                         has_next = (pg < total_pages_of (length xs) sz),
                         has_prev = (pg > 1)\<rparr>\<rparr>"
  by (simp add: paginate_def Let_def)

lemma paginate_cases:
  assumes "paginate xs pg sz = Inr p"
  shows "1 \<le> pg"
    and "paged_places p = sub_slice xs (nat (pg - 1) * sz) (nat pg * sz)"
    and "paged_count p = length (paged_places p)"
    and "paged_total p = length xs"
    and "page (paged_info p) = pg"
    and "limit (paged_info p) = sz"
    and "total_pages (paged_info p) = total_pages_of (length xs) sz"
    and "has_next (paged_info p) = (pg < total_pages_of (length xs) sz)"
    and "has_prev (paged_info p) = (pg > 1)"
proof -
  show pg: "1 \<le> pg" using assms by (cases "pg < 1") (simp_all add: paginate_Inl)
  from assms have p: "p = \<lparr>paged_places = sub_slice xs (nat (pg - 1) * sz) (nat pg * sz),
          paged_count = length (sub_slice xs (nat (pg - 1) * sz) (nat pg * sz)),
          paged_total = length xs,
          paged_info = \<lparr>page = pg, limit = sz, total_pages = total_pages_of (length xs) sz,
                         has_next = (pg < total_pages_of (length xs) sz),
                         has_prev = (pg > 1)\<rparr>\<rparr>"
    by (simp add: paginate_Inr[OF pg])
  show "paged_places p = sub_slice xs (nat (pg - 1) * sz) (nat pg * sz)" by (simp add: p)
  show "paged_count p = length (paged_places p)" by (simp add: p)
  show "paged_total p = length xs" by (simp add: p)
  show "page (paged_info p) = pg" by (simp add: p)
  show "limit (paged_info p) = sz" by (simp add: p)
  show "total_pages (paged_info p) = total_pages_of (length xs) sz" by (simp add: p)
  show "has_next (paged_info p) = (pg < total_pages_of (length xs) sz)" by (simp add: p)
  show "has_prev (paged_info p) = (pg > 1)" by (simp add: p)
qed

lemma page_beyond_empty:
  assumes "total_pages_of (length xs) sz < pg"
  shows "sub_slice xs (nat (pg - 1) * sz) (nat pg * sz) = []"
proof (cases "sz = 0 \<or> xs = []")
  case True
  then show ?thesis by (auto simp: sub_slice_def)
next
  case False
  then have sz: "1 \<le> sz" and n: "1 \<le> length xs" by (auto simp: Suc_le_eq)
  let ?tp = "total_pages_of (length xs) sz"
  have tp1: "1 \<le> ?tp" by (rule total_pages_of_ge1)
  have "int (length xs) \<le> ?tp * int sz"
    using total_pages_of_bounds[OF n sz] by simp
  also have "\<dots> \<le> (pg - 1) * int sz"
    using assms by (intro mult_right_mono) auto
  also have "\<dots> = int (nat (pg - 1) * sz)"
    using assms tp1 by simp
  finally have "length xs \<le> nat (pg - 1) * sz" by (simp only: of_nat_le_iff)
  then show ?thesis by (rule sub_slice_beyond)
qed

text \<open>
  Claim C3. For every list, every page from 1 on and every page size, the pagination layer
  returns the elements at the positions \<open>(page-1)*size \<le> k < page*size\<close> that exist in
  the list, in order: the slice has \<open>min (page*size) n - min ((page-1)*size) n\<close>
  elements and its \<open>i\<close>-th element is element \<open>(page-1)*size + i\<close> of the list. The count
  is the length of the slice and the total count the length of the list, whatever the
  page; a page beyond \<open>total_pages\<close> gives the empty slice with count 0.
\<close>

theorem paginate_slice:
  assumes "1 \<le> pg"
  shows "\<exists>p. paginate xs pg sz = Inr p
       \<and> length (paged_places p)
            = min (nat pg * sz) (length xs) - min (nat (pg - 1) * sz) (length xs)
       \<and> (\<forall>i < length (paged_places p). paged_places p ! i = xs ! (nat (pg - 1) * sz + i))
       \<and> paged_count p = length (paged_places p)
       \<and> paged_total p = length xs
       \<and> (total_pages (paged_info p) < pg \<longrightarrow> paged_places p = [] \<and> paged_count p = 0)"
proof -
  from assms obtain p where p: "paginate xs pg sz = Inr p"
    by (simp add: paginate_Inr)
  note c = paginate_cases[OF p]
  have "total_pages (paged_info p) < pg \<longrightarrow> paged_places p = []"
    using page_beyond_empty[of xs sz pg] by (simp add: c(2) c(7))
  then have "length (paged_places p)
            = min (nat pg * sz) (length xs) - min (nat (pg - 1) * sz) (length xs)
       \<and> (\<forall>i < length (paged_places p). paged_places p ! i = xs ! (nat (pg - 1) * sz + i))
       \<and> paged_count p = length (paged_places p)
       \<and> paged_total p = length xs
       \<and> (total_pages (paged_info p) < pg \<longrightarrow> paged_places p = [] \<and> paged_count p = 0)"
    by (simp add: c(2,3,4) length_sub_slice nth_sub_slice)
  with p have "paginate xs pg sz = Inr p
       \<and> length (paged_places p)
            = min (nat pg * sz) (length xs) - min (nat (pg - 1) * sz) (length xs)
       \<and> (\<forall>i < length (paged_places p). paged_places p ! i = xs ! (nat (pg - 1) * sz + i))
       \<and> paged_count p = length (paged_places p)
       \<and> paged_total p = length xs
       \<and> (total_pages (paged_info p) < pg \<longrightarrow> paged_places p = [] \<and> paged_count p = 0)"
    by (rule conjI)
  then show ?thesis by (rule exI)
qed

theorem paginate_slice_witness:
  "(1 :: int) \<le> 3
   \<and> paginate [10, 11, 12, 13, 14 :: nat] 3 2 =
     Inr \<lparr>paged_places = [14], paged_count = 1, paged_total = 5,
          paged_info = \<lparr>page = 3, limit = 2, total_pages = 3,
                         has_next = False, has_prev = True\<rparr>\<rparr>
   \<and> [14 :: nat] ! 0 = [10, 11, 12, 13, 14] ! (nat (3 - 1) * 2 + 0)
   \<and> (1 :: int) \<le> 4 \<and> (3 :: int) < 4
   \<and> paginate [10, 11, 12, 13, 14 :: nat] 4 2 =
     Inr \<lparr>paged_places = [], paged_count = 0, paged_total = 5,
          paged_info = \<lparr>page = 4, limit = 2, total_pages = 3,
                         has_next = False, has_prev = True\<rparr>\<rparr>"
proof -
  have h3: "paginate [10, 11, 12, 13, 14 :: nat] 3 2 =
     Inr \<lparr>paged_places = [14], paged_count = 1, paged_total = 5,
          paged_info = \<lparr>page = 3, limit = 2, total_pages = 3,
                         has_next = False, has_prev = True\<rparr>\<rparr>"
    by code_simp
  have h4: "paginate [10, 11, 12, 13, 14 :: nat] 4 2 =
     Inr \<lparr>paged_places = [], paged_count = 0, paged_total = 5,
          paged_info = \<lparr>page = 4, limit = 2, total_pages = 3,
                         has_next = False, has_prev = True\<rparr>\<rparr>"
    by code_simp
  have p3: "(1 :: int) \<le> 3" and p4: "(1 :: int) \<le> 4" by simp_all
  show ?thesis
    using paginate_slice[OF p3, of "[10, 11, 12, 13, 14 :: nat]" 2]
      paginate_slice[OF p4, of "[10, 11, 12, 13, 14 :: nat]" 2] h3 h4
    by simp
qed

text \<open>
  Claim C1, as amended. For a valid page size (at least 1), \<open>total_pages\<close> is at least 1;
  it is the ceiling of \<open>total_count / limit\<close> whenever there is at least one result,
  and it is 1 when there is none (where that ceiling is 0).
\<close>

theorem total_pages_min_one:
  assumes "1 \<le> pg" and "1 \<le> sz"
  shows "\<exists>p. paginate xs pg sz = Inr p
       \<and> paged_total p = length xs \<and> limit (paged_info p) = sz
       \<and> 1 \<le> total_pages (paged_info p)
       \<and> (1 \<le> paged_total p \<longrightarrow>
            total_pages (paged_info p)
              = \<lceil>(of_nat (paged_total p) :: rat) / of_nat (limit (paged_info p))\<rceil>)
       \<and> (paged_total p = 0 \<longrightarrow> total_pages (paged_info p) = 1)"
proof -
  from assms(1) obtain p where p: "paginate xs pg sz = Inr p"
    by (simp add: paginate_Inr)
  note c = paginate_cases[OF p]
  have a: "1 \<le> total_pages (paged_info p)"
    by (simp only: c(7) total_pages_of_ge1)
  have b: "1 \<le> paged_total p \<longrightarrow> total_pages (paged_info p)
              = \<lceil>(of_nat (paged_total p) :: rat) / of_nat (limit (paged_info p))\<rceil>"
    using assms(2) by (simp add: c(4,6,7) total_pages_of_ceiling)
  have d: "paged_total p = 0 \<longrightarrow> total_pages (paged_info p) = 1"
    by (simp add: c(4,7) total_pages_of_zero)
  from p a b d c(4,6)
  have "paginate xs pg sz = Inr p
       \<and> paged_total p = length xs \<and> limit (paged_info p) = sz
       \<and> 1 \<le> total_pages (paged_info p)
       \<and> (1 \<le> paged_total p \<longrightarrow>
            total_pages (paged_info p)
              = \<lceil>(of_nat (paged_total p) :: rat) / of_nat (limit (paged_info p))\<rceil>)
       \<and> (paged_total p = 0 \<longrightarrow> total_pages (paged_info p) = 1)"
    by simp
  then show ?thesis by (rule exI)
qed

theorem total_pages_min_one_witness:
  "(1 :: int) \<le> 3 \<and> (1 :: nat) \<le> 20
   \<and> paginate [0..<47] 3 20 =
     Inr \<lparr>paged_places = [40, 41, 42, 43, 44, 45, 46], paged_count = 7, paged_total = 47,
          paged_info = \<lparr>page = 3, limit = 20, total_pages = 3,
                         has_next = False, has_prev = True\<rparr>\<rparr>
   \<and> (3 :: int) = \<lceil>(of_nat 47 :: rat) / of_nat 20\<rceil>
   \<and> paginate ([] :: nat list) 1 20 =
     Inr \<lparr>paged_places = [], paged_count = 0, paged_total = 0,
          paged_info = \<lparr>page = 1, limit = 20, total_pages = 1,
                         has_next = False, has_prev = False\<rparr>\<rparr>"
proof -
  have h1: "paginate [0..<47] 3 20 =
     Inr \<lparr>paged_places = [40, 41, 42, 43, 44, 45, 46], paged_count = 7, paged_total = 47,
          paged_info = \<lparr>page = 3, limit = 20, total_pages = 3,
                         has_next = False, has_prev = True\<rparr>\<rparr>"
    by code_simp
  have h2: "paginate ([] :: nat list) 1 20 =
     Inr \<lparr>paged_places = [], paged_count = 0, paged_total = 0,
          paged_info = \<lparr>page = 1, limit = 20, total_pages = 1,
                         has_next = False, has_prev = False\<rparr>\<rparr>"
    by code_simp
  have pg3: "(1 :: int) \<le> 3" and pg1: "(1 :: int) \<le> 1" and sz: "(1 :: nat) \<le> 20"
    by simp_all
  show ?thesis
    using total_pages_min_one[OF pg3 sz, of "[0..<47]"]
      total_pages_min_one[OF pg1 sz, of "[] :: nat list"] h1 h2
    by simp
qed

text \<open>
  With no results and a page size of 20 the layer reports one page, while the ceiling
  of \<open>0 / 20\<close> is 0.
\<close>

theorem total_pages_ceiling_counterexample:
  "paginate ([] :: nat list) 1 20 =
     Inr \<lparr>paged_places = [], paged_count = 0, paged_total = 0,
          paged_info = \<lparr>page = 1, limit = 20, total_pages = 1,
                         has_next = False, has_prev = False\<rparr>\<rparr>
   \<and> \<lceil>(of_nat 0 :: rat) / of_nat 20\<rceil> \<noteq> (1::int)"
  by (simp add: paginate_Inr total_pages_of_zero sub_slice_def)


lemma paginate_request_eq:
  "paginate_request max_limit xs pg requested =
     paginate xs pg (if requested > max_limit then max_limit else requested)"
  by (simp add: paginate_request_def effective_limit_def)

text \<open>
  Claim C4. The pagination layer fails exactly when the requested page is 0 or negative,
  and then with the invalid-input error; for every page from 1 on it returns a result.
  A requested page size above the configured maximum is answered exactly as a request
  for the maximum itself: not rejected, and the page size reported is the maximum.
\<close>

theorem paginate_request_errors:
  "(isl (paginate_request max_limit xs pg requested) \<longleftrightarrow> pg \<le> 0)
   \<and> (pg \<le> 0 \<longrightarrow>
        paginate_request max_limit xs pg requested = Inl (InvalidInput NonPositivePage))
   \<and> (max_limit < requested \<longrightarrow>
        paginate_request max_limit xs pg requested = paginate xs pg max_limit)
   \<and> (max_limit < requested \<and> 1 \<le> pg \<longrightarrow>
        (\<exists>p. paginate_request max_limit xs pg requested = Inr p
             \<and> limit (paged_info p) = max_limit))"
proof (cases "pg < 1")
  case True
  then show ?thesis by (simp add: paginate_request_eq paginate_Inl)
next
  case False
  then have "1 \<le> pg" by simp
  then show ?thesis by (simp add: paginate_request_eq paginate_Inr)
qed

theorem paginate_request_errors_witness:
  "paginate_request 100 [10, 11, 12 :: nat] 0 20 = Inl (InvalidInput NonPositivePage)
   \<and> (0 :: int) \<le> 0
   \<and> (100 :: nat) < 1000 \<and> (1 :: int) \<le> 1
   \<and> paginate_request 100 [10, 11, 12 :: nat] 1 1000 =
       Inr \<lparr>paged_places = [10, 11, 12], paged_count = 3, paged_total = 3,
            paged_info = \<lparr>page = 1, limit = 100, total_pages = 1,
                           has_next = False, has_prev = False\<rparr>\<rparr>"
proof -
  have a: "(0 :: int) \<le> 0" and b: "(100 :: nat) < 1000" and c: "(1 :: int) \<le> 1"
    by simp_all
  have d: "paginate [10, 11, 12 :: nat] 1 100 =
       Inr \<lparr>paged_places = [10, 11, 12], paged_count = 3, paged_total = 3,
            paged_info = \<lparr>page = 1, limit = 100, total_pages = 1,
                           has_next = False, has_prev = False\<rparr>\<rparr>"
    by code_simp
  show ?thesis
    using paginate_request_errors[of 100 "[10, 11, 12 :: nat]" 0 20]
      paginate_request_errors[of 100 "[10, 11, 12 :: nat]" 1 1000] a b c d
    by simp
qed

section \<open>Properties of the search endpoint\<close>

lemma lookup_category_None:
  "k \<notin> set (map (\<lambda>entry. key (fst entry)) table) \<Longrightarrow> lookup_category table k = None"
  by (force simp: lookup_category_def find_None_iff)

lemma lookup_category_Some:
  "lookup_category table k = Some entry \<Longrightarrow> entry \<in> set table \<and> key (fst entry) = k"
  by (auto simp: lookup_category_def find_Some_iff)

text \<open>
  Claim C5. A search whose category key is not a key of the category table fails with
  the invalid-input error for an unknown category, whatever the upstream services would
  answer: it is never a result, empty or not.
\<close>

theorem unknown_category_rejected:
  assumes "cat \<notin> set (map (\<lambda>entry. key (fst entry)) table)"
  shows "search_places table geocode place_query normalizer max_limit twn cat pg requested
           = Inl (InvalidInput InvalidCategory)"
  using lookup_category_None[OF assms] by (simp add: search_places_def)

theorem unknown_category_rejected_witness:
  "''zoo'' \<notin> set (map (\<lambda>entry. key (fst entry)) sample_table)
   \<and> search_places sample_table (\<lambda>t. Inr (''Paris, France'', ()))
        (\<lambda>region preds. Inr [1, 2, 3]) (\<lambda>i. Some (sample_place i)) 100 ''Paris'' ''zoo'' 1 20
       = Inl (InvalidInput InvalidCategory)"
proof -
  have h: "''zoo'' \<notin> set (map (\<lambda>entry. key (fst entry)) sample_table)"
    by (simp add: sample_table_def)
  show ?thesis
    using unknown_category_rejected[OF h] h by simp
qed

lemma search_places_Inr:
  assumes "search_places table geocode place_query normalizer max_limit twn cat pg requested
             = Inr r"
  shows "\<exists>entry resolved region raws p.
           lookup_category table cat = Some entry
         \<and> geocode twn = Inr (resolved, region)
         \<and> place_query region (snd entry) = Inr raws
         \<and> paginate_request max_limit (List.map_filter normalizer raws) pg requested = Inr p
         \<and> r = \<lparr>town = resolved, category = cat, places = paged_places p,
                 count = paged_count p, total_count = paged_total p,
                 pagination = paged_info p\<rparr>"
  using assms unfolding search_places_def
  by (auto split: option.splits sum.splits prod.splits)

text \<open>
  Claim C2. Every result the search endpoint produces carries the requested page, which
  is at least 1, with \<open>has_prev\<close> true exactly when the page is above 1 and \<open>has_next\<close>
  true exactly when the page is below \<open>total_pages\<close>; this holds for every page, also one
  beyond \<open>total_pages\<close>. The other invariants of the result hold as well: at least one
  page in total, the count is the length of the slice and never exceeds the total count.
\<close>

theorem pagination_flags:
  assumes "search_places table geocode place_query normalizer max_limit twn cat pg requested
             = Inr r"
  shows "has_prev (pagination r) = (page (pagination r) > 1)
       \<and> has_next (pagination r) = (page (pagination r) < total_pages (pagination r))
       \<and> page (pagination r) = pg \<and> 1 \<le> page (pagination r)
       \<and> 1 \<le> total_pages (pagination r)
       \<and> count r = length (places r) \<and> count r \<le> total_count r"
proof -
  from search_places_Inr[OF assms] obtain raws p where
    p: "paginate_request max_limit (List.map_filter normalizer raws) pg requested = Inr p"
    and r: "pagination r = paged_info p" "count r = paged_count p" "places r = paged_places p"
      "total_count r = paged_total p"
    by auto
  note c = paginate_cases[OF p[unfolded paginate_request_def]]
  have "length (paged_places p) \<le> paged_total p"
    by (simp add: c(2,4) length_sub_slice)
  then show ?thesis
    using c(1) by (simp add: r c(3,5,7,8,9) total_pages_of_ge1)
qed

theorem pagination_flags_witness:
  "search_places sample_table (\<lambda>t. Inr (''Paris, France'', ()))
        (\<lambda>region preds. Inr [1, 2, 3]) (\<lambda>i. Some (sample_place i)) 100 ''Paris'' ''cafe'' 2 2
     = Inr \<lparr>town = ''Paris, France'', category = ''cafe'', places = [sample_place 3],
            count = 1, total_count = 3,
            pagination = \<lparr>page = 2, limit = 2, total_pages = 2,
                           has_next = False, has_prev = True\<rparr>\<rparr>
   \<and> ((2 :: int) > 1) = True \<and> ((2 :: int) < 2) = False"
proof -
  have h: "search_places sample_table (\<lambda>t. Inr (''Paris, France'', ()))
        (\<lambda>region preds. Inr [1, 2, 3]) (\<lambda>i. Some (sample_place i)) 100 ''Paris'' ''cafe'' 2 2
     = Inr \<lparr>town = ''Paris, France'', category = ''cafe'', places = [sample_place 3],
            count = 1, total_count = 3,
            pagination = \<lparr>page = 2, limit = 2, total_pages = 2,
                           has_next = False, has_prev = True\<rparr>\<rparr>"
    by (simp add: search_places_def lookup_category_def sample_table_def
        paginate_request_eq paginate_Inr List.map_filter_def sub_slice_def
        total_pages_of_div)
  show ?thesis
    using pagination_flags[OF h] h by simp
qed


end
